theory Spec2Isabelle
  imports Main "HOL-Library.Char_ord" "HOL-Library.List_Lexorder"
begin

section \<open>PushWorld: the transition engine of \<open>puzzle.py\<close>\<close>

text \<open>
  A cell is a pair of integers, a state the tuple of the anchor positions of the
  movables, the agent at index 0. The coordinates the source is handed are Python
  integers; what it computes with \<open>Actions.DISPLACEMENTS\<close>, \<open>np.subtract\<close> and \<open>np.add\<close>
  are numpy \<open>int64\<close> values, whose arithmetic wraps around at \<open>2^63\<close>.
\<close>

type_synonym point = "int \<times> int"
type_synonym state = "point list"

datatype error = IndexError | ValueError | AssertionError | KeyError

definition NUM_ACTIONS :: nat where
  "NUM_ACTIONS = 4"

definition AGENT_IDX :: nat where
  "AGENT_IDX = 0"

text \<open>\<open>Actions.DISPLACEMENTS\<close>: LEFT, RIGHT, UP, DOWN.\<close>

definition DISPLACEMENTS :: "point list" where
  "DISPLACEMENTS = [(-1, 0), (1, 0), (0, -1), (0, 1)]"

text \<open>
  Indexing by a caller-supplied integer, as Python lists and numpy arrays do it: a
  negative index counts from the end, anything outside raises \<open>IndexError\<close>.
\<close>

definition py_index :: "'a list \<Rightarrow> int \<Rightarrow> error + 'a" where
  "py_index xs i =
     (if 0 \<le> i \<and> i < int (length xs) then Inr (xs ! nat i)
      else if - int (length xs) \<le> i \<and> i < 0 then Inr (xs ! nat (int (length xs) + i))
      else Inl IndexError)"

subsection \<open>numpy's 64-bit integers\<close>

text \<open>
  \<open>int64 v\<close> is the \<open>int64\<close> value that a sum or difference with the exact result \<open>v\<close>
  yields: \<open>v\<close> itself between \<open>-2^63\<close> and \<open>2^63 - 1\<close>, wrapped around into that range
  otherwise. \<open>np.subtract\<close> and \<open>np.add\<close> (also written \<open>+\<close> on an array) work on the two
  coordinates of a pair. The operands are \<open>int64\<close> values themselves: a Python integer
  outside that range makes numpy leave \<open>int64\<close> or raise, depending on its version, and
  is no input of the model; \<open>in_range\<close> below keeps well inside.
\<close>

definition int64 :: "int \<Rightarrow> int" where
  "int64 v = (v + 9223372036854775808) mod 18446744073709551616 - 9223372036854775808"

definition np_subtract :: "point \<Rightarrow> point \<Rightarrow> point" where
  "np_subtract p q = (int64 (fst p - fst q), int64 (snd p - snd q))"

definition np_add :: "point \<Rightarrow> point \<Rightarrow> point" where
  "np_add p q = (int64 (fst p + fst q), int64 (snd p + snd q))"

subsection \<open>The store\<close>

text \<open>
  The constructor keeps several references to one Python set and changes the set through
  one of them, so the sets of cells live in a store: a reference is an address, the heap
  is the list of the sets made so far (each the list of its elements), the set of address
  \<open>r\<close> at position \<open>r\<close>; a new set goes to the end.
\<close>

type_synonym ref = nat
type_synonym heap = "point list list"

definition contents :: "heap \<Rightarrow> ref \<Rightarrow> point list" where
  "contents h r = h ! r"

text \<open>\<open>set()\<close>, \<open>s.add(p)\<close> and \<open>target.update(source)\<close>.\<close>

definition empty_heap :: heap where
  "empty_heap = []"

definition new_set :: "heap \<Rightarrow> point list \<Rightarrow> ref \<times> heap" where
  "new_set h cells = (length h, h @ [cells])"

definition set_add :: "heap \<Rightarrow> ref \<Rightarrow> point \<Rightarrow> heap" where
  "set_add h r p = h[r := List.insert p (contents h r)]"

definition set_update :: "heap \<Rightarrow> ref \<Rightarrow> ref \<Rightarrow> heap" where
  "set_update h target source =
     h[target := fold List.insert (contents h source) (contents h target)]"

subsection \<open>The puzzle object\<close>

text \<open>
  The fields of a \<open>PushWorldPuzzle\<close>, but for its name and the colours and objects kept
  for rendering. A movable object is its initial position and the reference to its
  cells; \<open>wall_positions_ref\<close> and \<open>agent_wall_positions_ref\<close> are the references
  \<open>self._wall_positions\<close> and \<open>self._agent_wall_positions\<close>. \<open>pushed_objects\<close> is the
  scratch array \<open>self._pushed_objects\<close>: it lives in the object, so every function that
  writes it returns the new array.
\<close>

record puzzle =
  grid_width :: nat
  grid_height :: nat
  movable_objects :: "(point \<times> ref) list"
  wall_positions_ref :: ref
  agent_wall_positions_ref :: ref
  num_movables :: nat
  initial_state :: state
  goal_state :: "point list"
  agent_collision_map :: "point set list"
  wall_collision_map :: "point set list list"
  movable_collision_map :: "point set list list list"
  pushed_objects :: "bool list"

text \<open>The properties \<open>wall_positions\<close> and \<open>agent_wall_positions\<close>: the sets behind the references.\<close>

definition wall_positions :: "heap \<Rightarrow> puzzle \<Rightarrow> point list" where
  "wall_positions h pz = contents h (wall_positions_ref pz)"

definition agent_wall_positions :: "heap \<Rightarrow> puzzle \<Rightarrow> point list" where
  "agent_wall_positions h pz = contents h (agent_wall_positions_ref pz)"

subsection \<open>Push propagation\<close>

text \<open>
  The body of \<open>for obstacle_idx in range(1, self.num_movables)\<close>, run over the indices
  still to visit. It ends in one of three ways: the range is exhausted (\<open>Scanned\<close>, with
  the scratch array and the frontier as they are then), an obstacle about to be pushed
  stands against a wall (\<open>Stopped\<close>, after \<open>self._pushed_objects[1:] = False\<close>), or a
  subscript is out of range (\<open>Raised\<close>, the scratch array left as it is).
\<close>

datatype scan_result =
    Scanned "bool list" "nat list"
  | Stopped "bool list"
  | Raised error "bool list"

fun scan_obstacles ::
  "state \<Rightarrow> point \<Rightarrow> point set list \<Rightarrow> point set list \<Rightarrow> nat list \<Rightarrow> bool list \<Rightarrow> nat list
     \<Rightarrow> scan_result" where
  "scan_obstacles st movable_pos movable_collisions walls [] pushed frontier =
     Scanned pushed frontier"
| "scan_obstacles st movable_pos movable_collisions walls (obstacle_idx # rest) pushed frontier =
     (if \<not> obstacle_idx < length pushed then Raised IndexError pushed
      else if pushed ! obstacle_idx
        then scan_obstacles st movable_pos movable_collisions walls rest pushed frontier
      else if \<not> obstacle_idx < length st then Raised IndexError pushed
      else if \<not> obstacle_idx < length movable_collisions then Raised IndexError pushed
      else if np_subtract movable_pos (st ! obstacle_idx) \<notin> movable_collisions ! obstacle_idx
        then scan_obstacles st movable_pos movable_collisions walls rest pushed frontier
      else if \<not> obstacle_idx < length walls then Raised IndexError pushed
      else if st ! obstacle_idx \<in> walls ! obstacle_idx
        then Stopped (take 1 pushed @ replicate (length pushed - 1) False)
      else scan_obstacles st movable_pos movable_collisions walls rest
             (pushed[obstacle_idx := True]) (frontier @ [obstacle_idx]))"

text \<open>The number of entries of the scratch array that are still unmarked.\<close>

definition unmarked :: "bool list \<Rightarrow> nat" where
  "unmarked pushed = length (filter Not pushed)"

lemma unmarked_mark:
  "k < length pushed \<Longrightarrow> \<not> pushed ! k \<Longrightarrow> Suc (unmarked (pushed[k := True])) = unmarked pushed"
proof (induction pushed arbitrary: k)
  case Nil
  then show ?case by simp
next
  case (Cons b bs)
  then show ?case by (cases k) (auto simp: unmarked_def)
qed

lemma scan_obstacles_budget:
  "scan_obstacles st mp mc walls ks pushed frontier = Scanned pushed' frontier'
   \<Longrightarrow> length frontier' + unmarked pushed' = length frontier + unmarked pushed"
proof (induction ks arbitrary: pushed frontier)
  case Nil
  then show ?case by simp
next
  case (Cons k ks)
  then show ?case
    using unmarked_mark [of k pushed] by (fastforce split: if_splits)
qed

text \<open>
  The body of the \<open>while\<close> loop once \<open>movable_idx\<close> has been popped and \<open>rest\<close> is what
  remains of the frontier: the two reads \<open>state[movable_idx]\<close> and
  \<open>self._movable_collision_map[action][movable_idx]\<close>, then the scan.
\<close>

definition visit ::
  "puzzle \<Rightarrow> state \<Rightarrow> int \<Rightarrow> point set list \<Rightarrow> nat \<Rightarrow> nat list \<Rightarrow> bool list \<Rightarrow> scan_result" where
  "visit pz st action walls movable_idx rest pushed =
     (if \<not> movable_idx < length st then Raised IndexError pushed
      else
        (case py_index (movable_collision_map pz) action of
           Inl e \<Rightarrow> Raised e pushed
         | Inr by_pusher \<Rightarrow>
            if \<not> movable_idx < length by_pusher then Raised IndexError pushed
            else scan_obstacles st (st ! movable_idx) (by_pusher ! movable_idx) walls
                   [1 ..< num_movables pz] pushed rest))"

lemma visit_budget:
  assumes "visit pz st action walls m rest pushed = Scanned pushed' frontier'"
  shows "length frontier' + unmarked pushed' = length rest + unmarked pushed"
  using assms unfolding visit_def
  by (auto split: if_splits sum.splits intro: scan_obstacles_budget)

text \<open>
  The \<open>while frontier\<close> loop. \<open>frontier.pop()\<close> takes the last element. The last
  argument is a ghost: the list of the indices popped so far, which the source does not
  keep; it is returned beside the outcome so that the pops can be counted.
\<close>

datatype propagation =
    Completed "bool list"
  | Halted "bool list"
  | Failed error "bool list"

function propagate ::
  "puzzle \<Rightarrow> state \<Rightarrow> int \<Rightarrow> point set list \<Rightarrow> nat list \<Rightarrow> bool list \<Rightarrow> nat list
     \<Rightarrow> propagation \<times> nat list" where
  "propagate pz st action walls frontier pushed popped =
     (if frontier = [] then (Completed pushed, popped)
      else
        (case visit pz st action walls (last frontier) (butlast frontier) pushed of
           Scanned pushed' frontier' \<Rightarrow>
             propagate pz st action walls frontier' pushed' (popped @ [last frontier])
         | Stopped pushed' \<Rightarrow> (Halted pushed', popped @ [last frontier])
         | Raised e pushed' \<Rightarrow> (Failed e pushed', popped @ [last frontier])))"
  by pat_completeness auto
termination
proof (relation "measure (\<lambda>(pz, st, action, walls, frontier, pushed, popped).
                            length frontier + unmarked pushed)", goal_cases)
  case 1
  show ?case by simp
next
  case (2 pz st action walls frontier pushed popped pushed' frontier')
  then have "length frontier' + unmarked pushed' = length (butlast frontier) + unmarked pushed"
    by (intro visit_budget) simp
  with 2(1) show ?case by (cases frontier rule: rev_cases) auto
qed

declare propagate.simps [simp del]

subsection \<open>The transition\<close>

text \<open>
  The closing loop \<open>for i in range(1, self.num_movables)\<close> over the copy \<open>next_state\<close>:
  a marked movable is displaced and its mark cleared, an unmarked one is copied.
\<close>

fun displace ::
  "point \<Rightarrow> state \<Rightarrow> nat list \<Rightarrow> bool list \<Rightarrow> state \<Rightarrow> (error + state) \<times> bool list" where
  "displace displacement st [] pushed next_state = (Inr next_state, pushed)"
| "displace displacement st (i # rest) pushed next_state =
     (if \<not> i < length pushed then (Inl IndexError, pushed)
      else if \<not> i < length st then (Inl IndexError, pushed)
      else if pushed ! i
        then displace displacement st rest (pushed[i := False])
               (next_state[i := np_add displacement (st ! i)])
      else displace displacement st rest pushed (next_state[i := st ! i]))"

text \<open>
  \<open>get_next_state\<close>. The result is the returned state or the exception raised, and the
  puzzle with its scratch array as the call leaves it.
\<close>

definition get_next_state :: "puzzle \<Rightarrow> state \<Rightarrow> int \<Rightarrow> (error + state) \<times> puzzle" where
  "get_next_state pz st action =
     (if \<not> AGENT_IDX < length st then (Inl IndexError, pz)
      else
        (case py_index (agent_collision_map pz) action of
           Inl e \<Rightarrow> (Inl e, pz)
         | Inr agent_blocked \<Rightarrow>
            if st ! AGENT_IDX \<in> agent_blocked then (Inr st, pz)
            else
              (case py_index (wall_collision_map pz) action of
                 Inl e \<Rightarrow> (Inl e, pz)
               | Inr walls \<Rightarrow>
                  (case fst (propagate pz st action walls [AGENT_IDX] (pushed_objects pz) []) of
                     Failed e pushed \<Rightarrow> (Inl e, pz\<lparr>pushed_objects := pushed\<rparr>)
                   | Halted pushed \<Rightarrow> (Inr st, pz\<lparr>pushed_objects := pushed\<rparr>)
                   | Completed pushed \<Rightarrow>
                      (case py_index DISPLACEMENTS action of
                         Inl e \<Rightarrow> (Inl e, pz\<lparr>pushed_objects := pushed\<rparr>)
                       | Inr displacement \<Rightarrow>
                          (case displace displacement st [1 ..< num_movables pz] pushed
                                  (st[0 := np_add displacement (st ! 0)]) of
                             (r, pushed') \<Rightarrow> (r, pz\<lparr>pushed_objects := pushed'\<rparr>)))))))"

section \<open>The goal evaluator and the plans\<close>

text \<open>\<open>is_goal_state\<close>: the slice \<open>state[1 : 1 + len(self._goal_state)]\<close> equals the goal tuple.\<close>

definition is_goal_state :: "puzzle \<Rightarrow> state \<Rightarrow> bool" where
  "is_goal_state pz st \<longleftrightarrow> take (length (goal_state pz)) (drop 1 st) = goal_state pz"

text \<open>
  \<open>is_valid_plan\<close>: the loop over the plan from a state, then the method. Each
  \<open>get_next_state\<close> hands the puzzle object on to the next.
\<close>

fun is_valid_plan_from :: "puzzle \<Rightarrow> state \<Rightarrow> int list \<Rightarrow> (error + bool) \<times> puzzle" where
  "is_valid_plan_from pz st [] = (Inr (is_goal_state pz st), pz)"
| "is_valid_plan_from pz st (action # plan) =
     (if is_goal_state pz st then (Inr False, pz)
      else
        (case get_next_state pz st action of
           (Inl e, pz') \<Rightarrow> (Inl e, pz')
         | (Inr st', pz') \<Rightarrow> is_valid_plan_from pz' st' plan))"

definition is_valid_plan :: "puzzle \<Rightarrow> int list \<Rightarrow> (error + bool) \<times> puzzle" where
  "is_valid_plan pz plan = is_valid_plan_from pz (initial_state pz) plan"

subsection \<open>The braindead puzzle\<close>

text \<open>
  \<open>BraindeadPushWorldPuzzle\<close> overrides the transition, the goal test and the plan
  check; what these read of the object are its width and height, its goal position and
  its initial state. Nothing in them writes to the object.
\<close>

record braindead_puzzle =
  bd_width :: int
  bd_height :: int
  bd_goal_position :: point
  bd_initial_state :: state

definition bd_get_next_state :: "braindead_puzzle \<Rightarrow> state \<Rightarrow> int \<Rightarrow> error + state" where
  "bd_get_next_state bp st action =
     (if \<not> AGENT_IDX < length st then Inl IndexError
      else
        (case py_index DISPLACEMENTS action of
           Inl e \<Rightarrow> Inl e
         | Inr displacement \<Rightarrow>
            if 1 \<le> fst (np_add (st ! AGENT_IDX) displacement)
               \<and> fst (np_add (st ! AGENT_IDX) displacement) \<le> bd_width bp
               \<and> 1 \<le> snd (np_add (st ! AGENT_IDX) displacement)
               \<and> snd (np_add (st ! AGENT_IDX) displacement) \<le> bd_height bp
            then Inr [np_add (st ! AGENT_IDX) displacement]
            else Inr st))"

definition bd_is_goal_state :: "braindead_puzzle \<Rightarrow> state \<Rightarrow> error + bool" where
  "bd_is_goal_state bp st =
     (if \<not> AGENT_IDX < length st then Inl IndexError
      else Inr (st ! AGENT_IDX = bd_goal_position bp))"

fun bd_is_valid_plan_from :: "braindead_puzzle \<Rightarrow> state \<Rightarrow> int list \<Rightarrow> error + bool" where
  "bd_is_valid_plan_from bp st [] = bd_is_goal_state bp st"
| "bd_is_valid_plan_from bp st (action # plan) =
     (case bd_is_goal_state bp st of
        Inl e \<Rightarrow> Inl e
      | Inr True \<Rightarrow> Inr True
      | Inr False \<Rightarrow>
         (case bd_get_next_state bp st action of
            Inl e \<Rightarrow> Inl e
          | Inr st' \<Rightarrow> bd_is_valid_plan_from bp st' plan))"

definition bd_is_valid_plan :: "braindead_puzzle \<Rightarrow> int list \<Rightarrow> error + bool" where
  "bd_is_valid_plan bp plan = bd_is_valid_plan_from bp (bd_initial_state bp) plan"

section \<open>The collision map builder\<close>

text \<open>
  A Python set of cells that the code iterates over is a list of its elements, in the
  order of the iteration; the sets the builder fills, which are only added to and
  searched, are sets. \<open>subtract_from_points\<close> is injective on the cells, so it is a
  \<open>map\<close>.

  Python's \<open>-\<close> takes its meaning from its operands. Where the constructor calls
  \<open>subtract_from_points\<close> the offset is a pair of Python integers and the difference is
  exact. Where \<open>points_overlap\<close> calls it the offset is a pair of \<open>int64\<close> scalars, since
  both callers of \<open>points_overlap\<close> compute it from \<open>Actions.DISPLACEMENTS\<close>, and the
  difference is an \<open>int64\<close>: that is \<open>subtract_from_points_int64\<close>.
\<close>

definition subtract_from_points :: "point list \<Rightarrow> point \<Rightarrow> point list" where
  "subtract_from_points points offset =
     (case offset of (dx, dy) \<Rightarrow> map (\<lambda>(x, y). (x - dx, y - dy)) points)"

definition subtract_from_points_int64 :: "point list \<Rightarrow> point \<Rightarrow> point list" where
  "subtract_from_points_int64 points offset =
     (case offset of (dx, dy) \<Rightarrow> map (\<lambda>(x, y). (int64 (x - dx), int64 (y - dy))) points)"

text \<open>\<open>points_overlap\<close>: \<open>bool(s1.intersection(offset_s2))\<close>.\<close>

definition points_overlap :: "point list \<Rightarrow> point list \<Rightarrow> point \<Rightarrow> bool" where
  "points_overlap s1 s2 offset \<longleftrightarrow> set s1 \<inter> set (subtract_from_points_int64 s2 offset) \<noteq> {}"

text \<open>
  \<open>_populate_static_collisions\<close>. \<open>xx, yy = zip(*object_pixels)\<close> raises \<open>ValueError\<close> on
  an empty object; the set \<open>collision_positions\<close>, changed in place by the source, is
  returned. \<open>dis_x\<close> and \<open>dis_y\<close> are \<open>int64\<close> scalars, so \<open>-dis_x + obstacle_x - object_x\<close>
  is three \<open>int64\<close> operations; \<open>width\<close>, \<open>height\<close> and the extent of the object are
  Python integers.
\<close>

definition populate_static_collisions ::
  "point set \<Rightarrow> int \<Rightarrow> point list \<Rightarrow> point list \<Rightarrow> int \<Rightarrow> int \<Rightarrow> error + point set" where
  "populate_static_collisions collision_positions action object_pixels static_obstacle_pixels
       width height =
     (case py_index DISPLACEMENTS action of
        Inl e \<Rightarrow> Inl e
      | Inr (dis_x, dis_y) \<Rightarrow>
         if object_pixels = [] then Inl ValueError
         else
           let xx = map fst object_pixels; yy = map snd object_pixels;
               object_size = (Max (set xx) - Min (set xx) + 1, Max (set yy) - Min (set yy) + 1);
               width = width - fst object_size;
               height = height - snd object_size
           in Inr (fold (\<lambda>(object_x, object_y).
                     fold (\<lambda>(obstacle_x, obstacle_y) collision_positions.
                        let dx = int64 (int64 (int64 (- dis_x) + obstacle_x) - object_x);
                            dy = int64 (int64 (int64 (- dis_y) + obstacle_y) - object_y)
                        in if dx \<ge> 0 \<and> dy \<ge> 0 \<and> dx \<le> width \<and> dy \<le> height
                              \<and> \<not> points_overlap object_pixels static_obstacle_pixels (dx, dy)
                           then insert (dx, dy) collision_positions
                           else collision_positions)
                       static_obstacle_pixels)
                    object_pixels collision_positions))"

text \<open>\<open>_populate_dynamic_collisions\<close>, with the same arithmetic.\<close>

definition populate_dynamic_collisions ::
  "point set \<Rightarrow> int \<Rightarrow> point list \<Rightarrow> point list \<Rightarrow> error + point set" where
  "populate_dynamic_collisions collision_positions action pusher_pixels pushee_pixels =
     (case py_index DISPLACEMENTS action of
        Inl e \<Rightarrow> Inl e
      | Inr (dis_x, dis_y) \<Rightarrow>
          Inr (fold (\<lambda>(pusher_x, pusher_y).
                  fold (\<lambda>(pushee_x, pushee_y) collision_positions.
                     let dx = int64 (int64 (int64 (- dis_x) + pushee_x) - pusher_x);
                         dy = int64 (int64 (int64 (- dis_y) + pushee_y) - pusher_y)
                     in if \<not> points_overlap pusher_pixels pushee_pixels (dx, dy)
                        then insert (dx, dy) collision_positions
                        else collision_positions)
                    pushee_pixels)
                 pusher_pixels collision_positions))"

section \<open>The constructor\<close>

text \<open>
  The model starts where the file has been read and split: its argument is the list of
  the lines, a line the list of its cells, a cell the list of its element identifiers
  in lower case (\<open>line.split()\<close>, \<open>split("+")\<close> and \<open>lower()\<close> done).

  \<open>obj_pixels\<close> is a \<open>defaultdict(set)\<close>: an association list from identifiers to
  references, in the order of insertion; reading a missing key makes a new empty set and
  enters it.
\<close>

type_synonym pixels_dict = "(string \<times> ref) list"

definition dict_get :: "pixels_dict \<Rightarrow> heap \<Rightarrow> string \<Rightarrow> ref \<times> pixels_dict \<times> heap" where
  "dict_get d h key =
     (case map_of d key of
        Some r \<Rightarrow> (r, d, h)
      | None \<Rightarrow> (case new_set h [] of (r, h') \<Rightarrow> (r, d @ [(key, r)], h')))"

text \<open>\<open>d[key] = v\<close> of a dictionary, and \<open>obj_pixels[key].add(p)\<close>.\<close>

fun dict_set :: "('k \<times> 'v) list \<Rightarrow> 'k \<Rightarrow> 'v \<Rightarrow> ('k \<times> 'v) list" where
  "dict_set [] key v = [(key, v)]"
| "dict_set ((k, w) # d) key v = (if k = key then (k, v) # d else (k, w) # dict_set d key v)"

definition dict_add :: "pixels_dict \<times> heap \<Rightarrow> string \<Rightarrow> point \<Rightarrow> pixels_dict \<times> heap" where
  "dict_add dh key p =
     (case dict_get (fst dh) (snd dh) key of (r, d', h') \<Rightarrow> (d', set_add h' r p))"

subsection \<open>Reading the grid\<close>

text \<open>
  The loops over the elements of a cell, the cells of a line (\<open>x\<close> counts from 1) and
  the lines (\<open>y\<close> counts from 1; \<open>elems_per_row\<close> starts as \<open>-1\<close>).
\<close>

fun parse_cell :: "string list \<Rightarrow> nat \<Rightarrow> nat \<Rightarrow> pixels_dict \<times> heap \<Rightarrow> pixels_dict \<times> heap" where
  "parse_cell [] x y dh = dh"
| "parse_cell (elem_id # cell_elems) x y dh =
     parse_cell cell_elems x y
       (if elem_id \<noteq> ''.'' then dict_add dh elem_id (int x, int y) else dh)"

fun parse_line :: "string list list \<Rightarrow> nat \<Rightarrow> nat \<Rightarrow> pixels_dict \<times> heap \<Rightarrow> pixels_dict \<times> heap" where
  "parse_line [] x y dh = dh"
| "parse_line (cell_elems # line_elems) x y dh =
     parse_line line_elems (Suc x) y (parse_cell cell_elems x y dh)"

fun parse_lines ::
  "string list list list \<Rightarrow> nat \<Rightarrow> int \<Rightarrow> pixels_dict \<times> heap \<Rightarrow> error + pixels_dict \<times> heap" where
  "parse_lines [] y elems_per_row dh = Inr dh"
| "parse_lines (line_elems # lines) y elems_per_row dh =
     (if y = 1 then
        parse_lines lines (Suc y) (int (length line_elems)) (parse_line line_elems 1 y dh)
      else if elems_per_row \<noteq> int (length line_elems) then Inl ValueError
      else parse_lines lines (Suc y) elems_per_row (parse_line line_elems 1 y dh))"

text \<open>The wall around the grid.\<close>

definition add_border :: "nat \<Rightarrow> nat \<Rightarrow> pixels_dict \<times> heap \<Rightarrow> pixels_dict \<times> heap" where
  "add_border width height dh =
     fold (\<lambda>yy dh. dict_add (dict_add dh ''w'' (0, int yy)) ''w'' (int width - 1, int yy))
       [0 ..< height]
       (fold (\<lambda>xx dh. dict_add (dict_add dh ''w'' (int xx, 0)) ''w'' (int xx, int height - 1))
          [0 ..< width] dh)"

subsection \<open>Placing the elements\<close>

text \<open>
  What the loop over \<open>sorted_elem_ids\<close> changes: \<open>obj_pixels\<close> and the store,
  \<open>object_positions\<close>, \<open>self._movable_objects\<close>, \<open>self._goal_state\<close> and \<open>movables\<close>.
\<close>

record loading =
  l_obj_pixels :: pixels_dict
  l_heap :: heap
  l_object_positions :: "(string \<times> point) list"
  l_objects :: "(point \<times> ref) list"
  l_goals :: "point list"
  l_movables :: "string list"

text \<open>
  The body of the loop for one identifier. \<open>zip(*pixels)\<close> raises \<open>ValueError\<close> on an
  empty set, \<open>elem_id[0]\<close> raises \<open>IndexError\<close> on the empty identifier, the
  \<open>assert\<close> raises \<open>AssertionError\<close>.
\<close>

definition place_element :: "loading \<Rightarrow> string \<Rightarrow> error + loading" where
  "place_element ld elem_id =
     (case dict_get (l_obj_pixels ld) (l_heap ld) elem_id of (r, d, h) \<Rightarrow>
        if \<not> (elem_id = ''w'' \<or> elem_id = ''aw'') \<and> contents h r = [] then Inl ValueError
        else
          let position =
                (if elem_id = ''w'' \<or> elem_id = ''aw'' then (0, 0)
                 else (Min (set (map fst (contents h r))), Min (set (map snd (contents h r)))))
          in (case new_set h (subtract_from_points (contents h r) position) of (pixels, h') \<Rightarrow>
                let ld' = ld\<lparr>l_obj_pixels := dict_set d elem_id pixels, l_heap := h',
                            l_object_positions := dict_set (l_object_positions ld) elem_id position\<rparr>
                in if elem_id = ''w'' \<or> elem_id = ''aw'' then Inr ld'
                   else if elem_id = ''a'' then Inr (ld'\<lparr>l_objects := l_objects ld' @ [(position, pixels)]\<rparr>)
                   else if elem_id = [] then Inl IndexError
                   else if hd elem_id = CHR ''g'' then
                     (if map_of (l_obj_pixels ld') (CHR ''m'' # tl elem_id) = None
                      then Inl AssertionError
                      else Inr (ld'\<lparr>l_goals := l_goals ld' @ [position],
                                     l_movables := l_movables ld' @ [CHR ''m'' # tl elem_id]\<rparr>))
                   else Inr ld'))"

fun place_elements :: "loading \<Rightarrow> string list \<Rightarrow> error + loading" where
  "place_elements ld [] = Inr ld"
| "place_elements ld (elem_id # sorted_elem_ids) =
     (case place_element ld elem_id of
        Inl e \<Rightarrow> Inl e
      | Inr ld' \<Rightarrow> place_elements ld' sorted_elem_ids)"

text \<open>
  The loop \<open>for elem_id in obj_pixels\<close> that appends the movables without a goal.
\<close>

fun other_movables :: "string list \<Rightarrow> string list \<Rightarrow> error + string list" where
  "other_movables [] movables = Inr movables"
| "other_movables (elem_id # elem_ids) movables =
     (if elem_id = [] then Inl IndexError
      else if hd elem_id = CHR ''m'' \<and> elem_id \<notin> set movables
        then other_movables elem_ids (movables @ [elem_id])
      else other_movables elem_ids movables)"

text \<open>
  Reading a plain dictionary raises \<open>KeyError\<close> on a missing key. Every identifier in
  \<open>movables\<close> is a key of \<open>obj_pixels\<close> (the assertion and the loop over the keys see to
  it), so reading \<open>obj_pixels\<close> at one of them never makes a new entry.
\<close>

definition dict_lookup :: "('k \<times> 'v) list \<Rightarrow> 'k \<Rightarrow> error + 'v" where
  "dict_lookup d key = (case map_of d key of None \<Rightarrow> Inl KeyError | Some v \<Rightarrow> Inr v)"

fun lookup_all :: "('k \<times> 'v) list \<Rightarrow> 'k list \<Rightarrow> error + 'v list" where
  "lookup_all d [] = Inr []"
| "lookup_all d (key # keys) =
     (case dict_lookup d key of
        Inl e \<Rightarrow> Inl e
      | Inr v \<Rightarrow> (case lookup_all d keys of Inl e \<Rightarrow> Inl e | Inr vs \<Rightarrow> Inr (v # vs)))"

text \<open>
  The first half of the constructor. After the loop over the lines \<open>x\<close> is the number of
  cells of the last line and \<open>y\<close> the number of lines (an agent was found, so there
  is a cell).
\<close>

definition load_objects :: "string list list list \<Rightarrow> error + loading \<times> nat \<times> nat" where
  "load_objects lines =
     (case parse_lines lines 1 (- 1) ([], empty_heap) of
        Inl e \<Rightarrow> Inl e
      | Inr parsed \<Rightarrow>
         if map_of (fst parsed) ''a'' = None then Inl ValueError
         else
           let width = length (last lines) + 2;
               height = length lines + 2;
               bordered = add_border width height parsed
           in
             (case place_elements
                     \<lparr>l_obj_pixels = fst bordered, l_heap = snd bordered, l_object_positions = [],
                      l_objects = [], l_goals = [], l_movables = [''a'']\<rparr>
                     (rev (sort (map fst (fst bordered)))) of
                Inl e \<Rightarrow> Inl e
              | Inr ld \<Rightarrow>
                 (case other_movables (map fst (l_obj_pixels ld)) (l_movables ld) of
                    Inl e \<Rightarrow> Inl e
                  | Inr movables \<Rightarrow> Inr (ld\<lparr>l_movables := movables\<rparr>, width, height))))"

subsection \<open>Filling the tables\<close>

text \<open>
  The three groups of loops that fill the tables, each over the list of the indices in
  the order the source visits them. \<open>obj_pixels["aw"].update(obj_pixels["w"])\<close> runs
  before each of the agent's tables is filled; \<open>movables[0]\<close> is \<open>"a"\<close>, so
  \<open>obj_pixels["a"]\<close> is the first of \<open>cells\<close>.
\<close>

fun fill_agent ::
  "nat list \<Rightarrow> ref \<Rightarrow> ref \<Rightarrow> ref \<Rightarrow> int \<Rightarrow> int \<Rightarrow> heap \<Rightarrow> point set list
     \<Rightarrow> error + heap \<times> point set list" where
  "fill_agent [] agent aw w width height h table = Inr (h, table)"
| "fill_agent (a # actions) agent aw w width height h table =
     (case populate_static_collisions (table ! a) (int a)
             (contents (set_update h aw w) agent) (contents (set_update h aw w) aw) width height of
        Inl e \<Rightarrow> Inl e
      | Inr collision_positions \<Rightarrow>
          fill_agent actions agent aw w width height (set_update h aw w)
            (table[a := collision_positions]))"

fun fill_walls ::
  "(nat \<times> nat) list \<Rightarrow> ref list \<Rightarrow> ref \<Rightarrow> int \<Rightarrow> int \<Rightarrow> heap \<Rightarrow> point set list list
     \<Rightarrow> error + point set list list" where
  "fill_walls [] cells w width height h table = Inr table"
| "fill_walls ((m, a) # rest) cells w width height h table =
     (case populate_static_collisions (table ! a ! m) (int a)
             (contents h (cells ! m)) (contents h w) width height of
        Inl e \<Rightarrow> Inl e
      | Inr collision_positions \<Rightarrow>
          fill_walls rest cells w width height h
            (table[a := (table ! a)[m := collision_positions]]))"

fun fill_movables ::
  "(nat \<times> nat \<times> nat) list \<Rightarrow> ref list \<Rightarrow> heap \<Rightarrow> point set list list list
     \<Rightarrow> error + point set list list list" where
  "fill_movables [] cells h table = Inr table"
| "fill_movables ((pusher, pushee, a) # rest) cells h table =
     (case populate_dynamic_collisions (table ! a ! pusher ! pushee) (int a)
             (contents h (cells ! pusher)) (contents h (cells ! pushee)) of
        Inl e \<Rightarrow> Inl e
      | Inr collision_positions \<Rightarrow>
          fill_movables rest cells h
            (table[a := (table ! a)
               [pusher := (table ! a ! pusher)[pushee := collision_positions]]]))"

definition create_collisions ::
  "nat \<Rightarrow> ref list \<Rightarrow> ref \<Rightarrow> ref \<Rightarrow> int \<Rightarrow> int \<Rightarrow> heap
     \<Rightarrow> error + heap \<times> point set list \<times> point set list list \<times> point set list list list" where
  "create_collisions n cells aw w width height h =
     (case fill_agent [0 ..< NUM_ACTIONS] (cells ! AGENT_IDX) aw w width height h
             (replicate NUM_ACTIONS {}) of
        Inl e \<Rightarrow> Inl e
      | Inr (h', agent_table) \<Rightarrow>
         (case fill_walls
                 (concat (map (\<lambda>m. map (\<lambda>a. (m, a)) [0 ..< NUM_ACTIONS]) [1 ..< n]))
                 cells w width height h'
                 (replicate NUM_ACTIONS (replicate n {})) of
            Inl e \<Rightarrow> Inl e
          | Inr wall_table \<Rightarrow>
             (case fill_movables
                     (concat (map (\<lambda>pusher. concat (map (\<lambda>pushee.
                         map (\<lambda>a. (pusher, pushee, a)) [0 ..< NUM_ACTIONS])
                           [1 ..< n])) [0 ..< n]))
                     cells h'
                     (replicate NUM_ACTIONS (replicate n (replicate n {}))) of
                Inl e \<Rightarrow> Inl e
              | Inr movable_table \<Rightarrow> Inr (h', agent_table, wall_table, movable_table))))"

text \<open>
  The constructor: the puzzle object and the store it leaves, or the exception raised.
\<close>

definition PushWorldPuzzle :: "string list list list \<Rightarrow> error + puzzle \<times> heap" where
  "PushWorldPuzzle lines =
     (case load_objects lines of
        Inl e \<Rightarrow> Inl e
      | Inr (ld, width, height) \<Rightarrow>
         (case lookup_all (l_object_positions ld) (l_movables ld) of
            Inl e \<Rightarrow> Inl e
          | Inr positions \<Rightarrow>
             (case lookup_all (l_obj_pixels ld) (l_movables ld) of
                Inl e \<Rightarrow> Inl e
              | Inr cells \<Rightarrow>
                 (case dict_get (l_obj_pixels ld) (l_heap ld) ''aw'' of
                    (aw, d, h) \<Rightarrow>
                     (case dict_get d h ''w'' of
                        (w, d', h') \<Rightarrow>
                         (case create_collisions (length (l_movables ld)) cells aw w
                                 (int width) (int height) h' of
                            Inl e \<Rightarrow> Inl e
                          | Inr (h'', agent_table, wall_table, movable_table) \<Rightarrow>
                             Inr (\<lparr>grid_width = width, grid_height = height,
                                   movable_objects = l_objects ld @ zip (tl positions) (tl cells),
                                   wall_positions_ref = w,
                                   agent_wall_positions_ref = aw,
                                   num_movables = length (l_movables ld),
                                   initial_state = positions,
                                   goal_state = l_goals ld,
                                   agent_collision_map = agent_table,
                                   wall_collision_map = wall_table,
                                   movable_collision_map = movable_table,
                                   pushed_objects =
                                     (replicate (length (l_movables ld)) False)
                                       [AGENT_IDX := True]\<rparr>, h'')))))))"

section \<open>Notions the properties are stated with\<close>

text \<open>
  Exact sums and differences of pairs, and the cells a shape covers when its anchor is at
  a position.
\<close>

definition translate :: "point \<Rightarrow> point \<Rightarrow> point" where
  "translate p d = (fst p + fst d, snd p + snd d)"

definition offset :: "point \<Rightarrow> point \<Rightarrow> point" where
  "offset p q = (fst p - fst q, snd p - snd q)"

definition placed :: "point list \<Rightarrow> point \<Rightarrow> point set" where
  "placed cells position = translate position ` set cells"

text \<open>
  The coordinates on which the \<open>int64\<close> arithmetic of the source is exact: below \<open>2^61\<close> in
  absolute value, so that a difference of two of them, displaced by a unit and taken
  from a third, stays an \<open>int64\<close>. Every cell of a grid, and every position of an object
  in it, is in this range unless the grid has \<open>2^61\<close> columns or rows.
\<close>

definition in_range :: "point \<Rightarrow> bool" where
  "in_range p \<longleftrightarrow> \<bar>fst p\<bar> < 2305843009213693952 \<and> \<bar>snd p\<bar> < 2305843009213693952"

text \<open>The indices a scratch array marks.\<close>

definition marked :: "bool list \<Rightarrow> nat set" where
  "marked pushed = {i. i < length pushed \<and> pushed ! i}"

text \<open>
  \<open>pushes\<close>: the test of the source, \<open>relative_pos in movable_collisions[obstacle_idx]\<close>,
  for pusher \<open>m\<close> and obstacle \<open>k\<close>, read from the state the call was given.
  \<open>wall_blocked\<close>: the test \<open>obstacle_pos in walls[obstacle_idx]\<close>.
  \<open>in_chain\<close>: the indices the agent's move sets in motion, the agent itself and
  every movable pushed by a member of the chain.
\<close>

definition pushes :: "puzzle \<Rightarrow> state \<Rightarrow> int \<Rightarrow> nat \<Rightarrow> nat \<Rightarrow> bool" where
  "pushes pz st action m k \<longleftrightarrow>
     np_subtract (st ! m) (st ! k) \<in> movable_collision_map pz ! nat action ! m ! k"

definition wall_blocked :: "puzzle \<Rightarrow> state \<Rightarrow> int \<Rightarrow> nat \<Rightarrow> bool" where
  "wall_blocked pz st action k \<longleftrightarrow> st ! k \<in> wall_collision_map pz ! nat action ! k"

inductive in_chain :: "puzzle \<Rightarrow> state \<Rightarrow> int \<Rightarrow> nat \<Rightarrow> bool" for pz st action where
  agent: "in_chain pz st action AGENT_IDX"
| pushed: "in_chain pz st action m \<Longrightarrow> 1 \<le> k \<Longrightarrow> k < num_movables pz
     \<Longrightarrow> pushes pz st action m k \<Longrightarrow> in_chain pz st action k"

text \<open>
  What the constructor guarantees about the shape of its tables, and the value of the
  scratch array between two calls.
\<close>

definition well_formed :: "puzzle \<Rightarrow> bool" where
  "well_formed pz \<longleftrightarrow>
     1 \<le> num_movables pz
     \<and> length (initial_state pz) = num_movables pz
     \<and> length (goal_state pz) < num_movables pz
     \<and> length (agent_collision_map pz) = NUM_ACTIONS
     \<and> length (wall_collision_map pz) = NUM_ACTIONS
     \<and> (\<forall>walls \<in> set (wall_collision_map pz). length walls = num_movables pz)
     \<and> length (movable_collision_map pz) = NUM_ACTIONS
     \<and> (\<forall>by_pusher \<in> set (movable_collision_map pz). length by_pusher = num_movables pz
           \<and> (\<forall>by_pushee \<in> set by_pusher. length by_pushee = num_movables pz))
     \<and> pushed_objects pz = True # replicate (num_movables pz - 1) False"

definition at_rest :: "puzzle \<Rightarrow> bool list" where
  "at_rest pz = True # replicate (num_movables pz - 1) False"

text \<open>
  The state in which exactly the chain has moved by the displacement of the action, the
  sum taken as the source takes it.
\<close>

definition displaced :: "puzzle \<Rightarrow> state \<Rightarrow> int \<Rightarrow> state" where
  "displaced pz st action =
     map (\<lambda>i. if in_chain pz st action i then np_add (DISPLACEMENTS ! nat action) (st ! i)
              else st ! i) [0 ..< length st]"

text \<open>The invariant of the \<open>while\<close> loop.\<close>

definition propagation_inv ::
  "puzzle \<Rightarrow> state \<Rightarrow> int \<Rightarrow> nat list \<Rightarrow> bool list \<Rightarrow> bool" where
  "propagation_inv pz st action frontier pushed \<longleftrightarrow>
     length pushed = num_movables pz
     \<and> set frontier \<subseteq> marked pushed
     \<and> 0 \<in> marked pushed
     \<and> (\<forall>k \<in> marked pushed. in_chain pz st action k)
     \<and> (\<forall>m \<in> marked pushed - set frontier. \<forall>k. 1 \<le> k \<and> k < num_movables pz
            \<and> pushes pz st action m k \<longrightarrow> k \<in> marked pushed)
     \<and> (\<forall>k \<in> marked pushed. k \<noteq> 0 \<longrightarrow> \<not> wall_blocked pz st action k)"

text \<open>
  The \<open>while\<close> loop with the pop left free: any position of the frontier may be taken
  next. The loop of the source, which takes the last, is one such run.
\<close>

inductive any_order ::
  "puzzle \<Rightarrow> state \<Rightarrow> int \<Rightarrow> point set list \<Rightarrow> nat list \<Rightarrow> bool list \<Rightarrow> propagation \<Rightarrow> bool"
  for pz st action walls where
  empty: "any_order pz st action walls [] pushed (Completed pushed)"
| scanned: "i < length frontier
     \<Longrightarrow> visit pz st action walls (frontier ! i) (take i frontier @ drop (Suc i) frontier) pushed
           = Scanned pushed' frontier'
     \<Longrightarrow> any_order pz st action walls frontier' pushed' r
     \<Longrightarrow> any_order pz st action walls frontier pushed r"
| stopped: "i < length frontier
     \<Longrightarrow> visit pz st action walls (frontier ! i) (take i frontier @ drop (Suc i) frontier) pushed
           = Stopped pushed'
     \<Longrightarrow> any_order pz st action walls frontier pushed (Halted pushed')"
| raised: "i < length frontier
     \<Longrightarrow> visit pz st action walls (frontier ! i) (take i frontier @ drop (Suc i) frontier) pushed
           = Raised e pushed'
     \<Longrightarrow> any_order pz st action walls frontier pushed (Failed e pushed')"

text \<open>
  Replaying a plan: the state after all its actions, or the exception of the first
  action that raises.
\<close>

fun replay :: "puzzle \<Rightarrow> state \<Rightarrow> int list \<Rightarrow> (error + state) \<times> puzzle" where
  "replay pz st [] = (Inr st, pz)"
| "replay pz st (action # plan) =
     (case get_next_state pz st action of
        (Inl e, pz') \<Rightarrow> (Inl e, pz')
      | (Inr st', pz') \<Rightarrow> replay pz' st' plan)"

fun bd_replay :: "braindead_puzzle \<Rightarrow> state \<Rightarrow> int list \<Rightarrow> error + state" where
  "bd_replay bp st [] = Inr st"
| "bd_replay bp st (action # plan) =
     (case bd_get_next_state bp st action of
        Inl e \<Rightarrow> Inl e
      | Inr st' \<Rightarrow> bd_replay bp st' plan)"

subsection \<open>A corridor\<close>

text \<open>
  The puzzle of the one-line file \<open>a m1 . g1\<close>: four free cells \<open>(1,1)\<close> to \<open>(4,1)\<close>
  inside the border, the agent on the first, a movable on the second, its goal on the
  fourth; agent and movable are one cell large. The tables are written out as the
  constructor fills them.
\<close>

definition corridor :: puzzle where
  "corridor =
     \<lparr>grid_width = 6, grid_height = 3,
      movable_objects = [((1, 1), 7), ((2, 1), 5)],
      wall_positions_ref = 4, agent_wall_positions_ref = 8,
      num_movables = 2,
      initial_state = [(1, 1), (2, 1)],
      goal_state = [(4, 1)],
      agent_collision_map =
        [{(1, 1)}, {(4, 1)},
         {(1, 1), (2, 1), (3, 1), (4, 1)}, {(1, 1), (2, 1), (3, 1), (4, 1)}],
      wall_collision_map =
        [[{}, {(1, 1)}], [{}, {(4, 1)}],
         [{}, {(1, 1), (2, 1), (3, 1), (4, 1)}], [{}, {(1, 1), (2, 1), (3, 1), (4, 1)}]],
      movable_collision_map =
        [[[{}, {(1, 0)}], [{}, {(1, 0)}]],
         [[{}, {(-1, 0)}], [{}, {(-1, 0)}]],
         [[{}, {(0, 1)}], [{}, {(0, 1)}]],
         [[{}, {(0, -1)}], [{}, {(0, -1)}]]],
      pushed_objects = [True, False]\<rparr>"

subsection \<open>A meadow\<close>

text \<open>The braindead puzzle of the one-line file \<open>a g1 .\<close>.\<close>

definition meadow :: braindead_puzzle where
  "meadow = \<lparr>bd_width = 3, bd_height = 1, bd_goal_position = (2, 1), bd_initial_state = [(1, 1)]\<rparr>"

section \<open>Properties of the arithmetic\<close>

lemma int64_id:
  "- 9223372036854775808 \<le> v \<Longrightarrow> v < 9223372036854775808 \<Longrightarrow> int64 v = v"
  by (simp add: int64_def)

lemma displacement_cases:
  assumes "0 \<le> action" and "action < 4"
  shows "DISPLACEMENTS ! nat action \<in> {(- 1, 0), (1, 0), (0, - 1), (0, 1)}"
proof -
  from assms have "nat action \<in> {0, 1, 2, 3}" by auto
  then show ?thesis by (auto simp: DISPLACEMENTS_def)
qed

lemma displacement_unit:
  assumes "0 \<le> action" and "action < 4"
  shows "\<bar>fst (DISPLACEMENTS ! nat action)\<bar> \<le> 1 \<and> \<bar>snd (DISPLACEMENTS ! nat action)\<bar> \<le> 1"
  using displacement_cases [OF assms] by auto

lemma np_add_translate:
  assumes "in_range p" and "\<bar>fst d\<bar> \<le> 1 \<and> \<bar>snd d\<bar> \<le> 1"
  shows "np_add d p = translate p d" and "np_add p d = translate p d"
proof -
  from assms have "int64 (fst p + fst d) = fst p + fst d" "int64 (snd p + snd d) = snd p + snd d"
    unfolding in_range_def by (intro int64_id; linarith)+
  then show "np_add d p = translate p d" and "np_add p d = translate p d"
    by (simp_all add: np_add_def translate_def add.commute)
qed

lemma np_subtract_offset:
  assumes "in_range p" and "in_range q"
  shows "np_subtract p q = offset p q"
proof -
  from assms have "int64 (fst p - fst q) = fst p - fst q" "int64 (snd p - snd q) = snd p - snd q"
    unfolding in_range_def by (intro int64_id; linarith)+
  then show ?thesis by (simp add: np_subtract_def offset_def)
qed

section \<open>Properties of the builder\<close>

lemma fold_insert_if:
  "fold (\<lambda>x acc. if c x then insert (f x) acc else acc) xs acc = acc \<union> f ` {x \<in> set xs. c x}"
  by (induction xs arbitrary: acc) auto

lemma fold_fold_insert_if:
  "fold (\<lambda>x. fold (\<lambda>y acc. if c x y then insert (f x y) acc else acc) ys) xs acc
     = acc \<union> {f x y | x y. x \<in> set xs \<and> y \<in> set ys \<and> c x y}"
proof (induction xs arbitrary: acc)
  case Nil
  show ?case by simp
next
  case (Cons x xs)
  have "fold (\<lambda>y acc. if c x y then insert (f x y) acc else acc) ys acc
      = acc \<union> f x ` {y \<in> set ys. c x y}"
    by (rule fold_insert_if)
  then show ?case by (auto simp: Cons.IH)
qed

text \<open>
  On cells and offsets in range the \<open>int64\<close> arithmetic of the builder is exact.
\<close>

lemma candidate_exact:
  fixes dis :: int
  assumes "\<bar>dis\<bar> \<le> 1" and "\<bar>o1\<bar> < 2305843009213693952" and "\<bar>s1\<bar> < 2305843009213693952"
  shows "int64 (int64 (int64 (- dis) + s1) - o1) = s1 - o1 - dis"
    and "\<bar>s1 - o1 - dis\<bar> < 4611686018427387904"
proof -
  from assms have "int64 (- dis) = - dis" by (intro int64_id) linarith+
  moreover from assms have "int64 (- dis + s1) = - dis + s1" by (intro int64_id) linarith+
  moreover from assms have "int64 (- dis + s1 - o1) = - dis + s1 - o1"
    by (intro int64_id) linarith+
  ultimately show "int64 (int64 (int64 (- dis) + s1) - o1) = s1 - o1 - dis" by simp
  from assms show "\<bar>s1 - o1 - dis\<bar> < 4611686018427387904" by linarith
qed

lemma subtract_from_points_int64_exact:
  assumes "\<forall>c \<in> set s2. in_range c"
    and "\<bar>fst r\<bar> < 4611686018427387904" and "\<bar>snd r\<bar> < 4611686018427387904"
  shows "subtract_from_points_int64 s2 r = subtract_from_points s2 r"
proof -
  obtain dx dy where r: "r = (dx, dy)" by (cases r)
  have "(int64 (x - dx), int64 (y - dy)) = (x - dx, y - dy)" if "(x, y) \<in> set s2" for x y
  proof -
    from that assms(1) have "in_range (x, y)" by blast
    with assms(2,3) show ?thesis
      unfolding r in_range_def fst_conv snd_conv prod.inject
      by (intro conjI int64_id) linarith+
  qed
  then show ?thesis
    unfolding subtract_from_points_int64_def subtract_from_points_def r by auto
qed

lemma points_overlap_iff:
  assumes "\<forall>c \<in> set s2. in_range c"
    and "\<bar>fst r\<bar> < 4611686018427387904" and "\<bar>snd r\<bar> < 4611686018427387904"
  shows "points_overlap s1 s2 r \<longleftrightarrow> placed s1 r \<inter> set s2 \<noteq> {}"
proof -
  have "(a, b) \<in> set (subtract_from_points s2 r) \<longleftrightarrow> translate r (a, b) \<in> set s2" for a b
    by (cases r) (force simp: subtract_from_points_def translate_def image_iff)
  then show ?thesis
    unfolding points_overlap_def placed_def subtract_from_points_int64_exact [OF assms] by auto
qed

lemma candidates_cong:
  assumes "\<And>x y. x \<in> A \<Longrightarrow> y \<in> B \<Longrightarrow> f x y = g x y \<and> (c x y \<longleftrightarrow> C (g x y))"
  shows "{f x y | x y. x \<in> A \<and> y \<in> B \<and> c x y} = {r. (\<exists>x \<in> A. \<exists>y \<in> B. r = g x y) \<and> C r}"
proof (intro set_eqI iffI)
  fix r
  assume "r \<in> {f x y | x y. x \<in> A \<and> y \<in> B \<and> c x y}"
  then obtain x y where "r = f x y" "x \<in> A" "y \<in> B" "c x y" by blast
  with assms [of x y] show "r \<in> {r. (\<exists>x \<in> A. \<exists>y \<in> B. r = g x y) \<and> C r}" by auto
next
  fix r
  assume "r \<in> {r. (\<exists>x \<in> A. \<exists>y \<in> B. r = g x y) \<and> C r}"
  then obtain x y where xy: "r = g x y" "x \<in> A" "y \<in> B" "C r" by blast
  with assms [of x y] have "r = f x y" "c x y" by auto
  with xy(2,3) show "r \<in> {f x y | x y. x \<in> A \<and> y \<in> B \<and> c x y}" by blast
qed

lemma populate_static_collisions_eq:
  assumes "0 \<le> action" and "action < 4" and "object_pixels \<noteq> []"
    and "\<forall>c \<in> set object_pixels. in_range c" and "\<forall>c \<in> set static_obstacle_pixels. in_range c"
  shows "populate_static_collisions cp action object_pixels static_obstacle_pixels width height =
     Inr (cp \<union> {r. (\<exists>oc \<in> set object_pixels. \<exists>sc \<in> set static_obstacle_pixels.
                      r = offset (offset sc oc) (DISPLACEMENTS ! nat action))
            \<and> 0 \<le> fst r \<and> 0 \<le> snd r
            \<and> fst r \<le> width - (Max (fst ` set object_pixels) - Min (fst ` set object_pixels) + 1)
            \<and> snd r \<le> height - (Max (snd ` set object_pixels) - Min (snd ` set object_pixels) + 1)
            \<and> placed object_pixels r \<inter> set static_obstacle_pixels = {}})"
proof -
  obtain dis_x dis_y where d: "DISPLACEMENTS ! nat action = (dis_x, dis_y)"
    by (cases "DISPLACEMENTS ! nat action")
  from assms(1,2) have i: "py_index DISPLACEMENTS action = Inr (dis_x, dis_y)"
    by (simp add: py_index_def DISPLACEMENTS_def d [unfolded DISPLACEMENTS_def])
  from displacement_unit [OF assms(1,2)] have u: "\<bar>dis_x\<bar> \<le> 1" "\<bar>dis_y\<bar> \<le> 1"
    by (simp_all add: d)
  have e: "(object_pixels = []) = False" using assms(3) by simp
  let ?f = "\<lambda>oc sc :: point. (int64 (int64 (int64 (- dis_x) + fst sc) - fst oc),
                int64 (int64 (int64 (- dis_y) + snd sc) - snd oc))"
  let ?C = "\<lambda>r :: point. 0 \<le> fst r \<and> 0 \<le> snd r
        \<and> fst r \<le> width - (Max (fst ` set object_pixels) - Min (fst ` set object_pixels) + 1)
        \<and> snd r \<le> height - (Max (snd ` set object_pixels) - Min (snd ` set object_pixels) + 1)
        \<and> placed object_pixels r \<inter> set static_obstacle_pixels = {}"
  let ?c = "\<lambda>oc sc. 0 \<le> fst (?f oc sc) \<and> 0 \<le> snd (?f oc sc)
        \<and> fst (?f oc sc) \<le> width - (Max (fst ` set object_pixels) - Min (fst ` set object_pixels) + 1)
        \<and> snd (?f oc sc) \<le> height - (Max (snd ` set object_pixels) - Min (snd ` set object_pixels) + 1)
        \<and> \<not> points_overlap object_pixels static_obstacle_pixels (?f oc sc)"
  have k: "?f oc sc = offset (offset sc oc) (dis_x, dis_y) \<and> (?c oc sc \<longleftrightarrow> ?C (offset (offset sc oc) (dis_x, dis_y)))"
    if "oc \<in> set object_pixels" "sc \<in> set static_obstacle_pixels" for oc sc
  proof -
    from that assms(4,5) have r: "in_range oc" "in_range sc" by blast+
    note x = candidate_exact [OF u(1), of "fst oc" "fst sc"]
    note y = candidate_exact [OF u(2), of "snd oc" "snd sc"]
    from r have f: "?f oc sc = offset (offset sc oc) (dis_x, dis_y)"
      by (simp add: x(1) y(1) in_range_def offset_def)
    from r x(2) y(2) have "\<bar>fst (offset (offset sc oc) (dis_x, dis_y))\<bar> < 4611686018427387904"
      "\<bar>snd (offset (offset sc oc) (dis_x, dis_y))\<bar> < 4611686018427387904"
      by (simp_all add: in_range_def offset_def)
    from points_overlap_iff [OF assms(5) this, of object_pixels] show ?thesis
      unfolding f by simp
  qed
  have s: "{?f oc sc | oc sc. oc \<in> set object_pixels \<and> sc \<in> set static_obstacle_pixels \<and> ?c oc sc}
      = {r. (\<exists>oc \<in> set object_pixels. \<exists>sc \<in> set static_obstacle_pixels.
                r = offset (offset sc oc) (dis_x, dis_y)) \<and> ?C r}"
    by (rule candidates_cong) (rule k)
  have "populate_static_collisions cp action object_pixels static_obstacle_pixels width height
      = Inr (cp \<union> {?f oc sc | oc sc. oc \<in> set object_pixels \<and> sc \<in> set static_obstacle_pixels
                                   \<and> ?c oc sc})"
    unfolding populate_static_collisions_def Let_def case_prod_beta
    by (simp only: i e sum.case fst_conv snd_conv if_False fold_fold_insert_if set_map)
  then show ?thesis unfolding s d .
qed

lemma populate_dynamic_collisions_eq:
  assumes "0 \<le> action" and "action < 4"
    and "\<forall>c \<in> set pusher_pixels. in_range c" and "\<forall>c \<in> set pushee_pixels. in_range c"
  shows "populate_dynamic_collisions cp action pusher_pixels pushee_pixels =
     Inr (cp \<union> {r. (\<exists>pc \<in> set pusher_pixels. \<exists>qc \<in> set pushee_pixels.
                      r = offset (offset qc pc) (DISPLACEMENTS ! nat action))
            \<and> placed pusher_pixels r \<inter> set pushee_pixels = {}})"
proof -
  obtain dis_x dis_y where d: "DISPLACEMENTS ! nat action = (dis_x, dis_y)"
    by (cases "DISPLACEMENTS ! nat action")
  from assms(1,2) have i: "py_index DISPLACEMENTS action = Inr (dis_x, dis_y)"
    by (simp add: py_index_def DISPLACEMENTS_def d [unfolded DISPLACEMENTS_def])
  from displacement_unit [OF assms(1,2)] have u: "\<bar>dis_x\<bar> \<le> 1" "\<bar>dis_y\<bar> \<le> 1"
    by (simp_all add: d)
  let ?f = "\<lambda>pc qc :: point. (int64 (int64 (int64 (- dis_x) + fst qc) - fst pc),
                int64 (int64 (int64 (- dis_y) + snd qc) - snd pc))"
  let ?C = "\<lambda>r :: point. placed pusher_pixels r \<inter> set pushee_pixels = {}"
  let ?c = "\<lambda>pc qc. \<not> points_overlap pusher_pixels pushee_pixels (?f pc qc)"
  have k: "?f pc qc = offset (offset qc pc) (dis_x, dis_y) \<and> (?c pc qc \<longleftrightarrow> ?C (offset (offset qc pc) (dis_x, dis_y)))"
    if "pc \<in> set pusher_pixels" "qc \<in> set pushee_pixels" for pc qc
  proof -
    from that assms(3,4) have r: "in_range pc" "in_range qc" by blast+
    note x = candidate_exact [OF u(1), of "fst pc" "fst qc"]
    note y = candidate_exact [OF u(2), of "snd pc" "snd qc"]
    from r have f: "?f pc qc = offset (offset qc pc) (dis_x, dis_y)"
      by (simp add: x(1) y(1) in_range_def offset_def)
    from r x(2) y(2) have "\<bar>fst (offset (offset qc pc) (dis_x, dis_y))\<bar> < 4611686018427387904"
      "\<bar>snd (offset (offset qc pc) (dis_x, dis_y))\<bar> < 4611686018427387904"
      by (simp_all add: in_range_def offset_def)
    from points_overlap_iff [OF assms(4) this, of pusher_pixels] show ?thesis
      unfolding f by simp
  qed
  have s: "{?f pc qc | pc qc. pc \<in> set pusher_pixels \<and> qc \<in> set pushee_pixels \<and> ?c pc qc}
      = {r. (\<exists>pc \<in> set pusher_pixels. \<exists>qc \<in> set pushee_pixels.
                r = offset (offset qc pc) (dis_x, dis_y)) \<and> ?C r}"
    by (rule candidates_cong) (rule k)
  have "populate_dynamic_collisions cp action pusher_pixels pushee_pixels
      = Inr (cp \<union> {?f pc qc | pc qc. pc \<in> set pusher_pixels \<and> qc \<in> set pushee_pixels \<and> ?c pc qc})"
    unfolding populate_dynamic_collisions_def Let_def case_prod_beta
    by (simp only: i sum.case fst_conv snd_conv fold_fold_insert_if)
  then show ?thesis unfolding s d .
qed

lemma image_meet:
  "f ` A \<inter> g ` B \<noteq> {} \<longleftrightarrow> (\<exists>a \<in> A. \<exists>b \<in> B. f a = g b)"
  by blast

lemma placed_meet:
  "placed P p \<inter> placed Q q \<noteq> {} \<longleftrightarrow> (\<exists>pc \<in> set P. \<exists>qc \<in> set Q. translate p pc = translate q qc)"
  unfolding placed_def by (rule image_meet)

lemma placed_meet_set:
  "placed P p \<inter> set Q \<noteq> {} \<longleftrightarrow> (\<exists>pc \<in> set P. \<exists>qc \<in> set Q. translate p pc = qc)"
  unfolding placed_def by blast

lemma placed_meet_shift:
  "placed P p \<inter> placed Q q \<noteq> {} \<longleftrightarrow> placed P (offset p q) \<inter> set Q \<noteq> {}"
proof -
  have "translate p pc = translate q qc \<longleftrightarrow> translate (offset p q) pc = qc" for pc qc
    by (auto simp: translate_def offset_def prod_eq_iff)
  then show ?thesis unfolding placed_meet placed_meet_set by simp
qed

lemma contact_offset:
  "(\<exists>pc \<in> set P. \<exists>qc \<in> set Q. offset p q = offset (offset qc pc) d)
     \<longleftrightarrow> placed P (translate p d) \<inter> placed Q q \<noteq> {}"
proof -
  have "offset p q = offset (offset qc pc) d \<longleftrightarrow> translate (translate p d) pc = translate q qc"
    for pc qc
    by (auto simp: translate_def offset_def prod_eq_iff)
  then show ?thesis unfolding placed_meet by simp
qed

lemma scan_obstacles_single:
  assumes "k < length pushed" and "\<not> pushed ! k" and "k < length st"
    and "k < length movable_collisions" and "k < length walls"
  shows "scan_obstacles st movable_pos movable_collisions walls [k] pushed frontier =
     (if np_subtract movable_pos (st ! k) \<in> movable_collisions ! k
      then if st ! k \<in> walls ! k
           then Stopped (take 1 pushed @ replicate (length pushed - 1) False)
           else Scanned (pushed[k := True]) (frontier @ [k])
      else Scanned pushed frontier)"
  using assms by simp

section \<open>Properties of the transition\<close>

subsection \<open>The scan of the obstacles\<close>

lemma marked_update:
  "k < length pushed \<Longrightarrow> marked (pushed[k := True]) = insert k (marked pushed)"
  by (auto simp: marked_def nth_list_update)

lemma scan_obstacles_Cons_Scanned:
  assumes "scan_obstacles st mp mc walls (k # ks) pushed frontier = Scanned pushed' frontier'"
  shows "k < length pushed \<and>
    (if pushed ! k \<or> np_subtract mp (st ! k) \<notin> mc ! k
     then scan_obstacles st mp mc walls ks pushed frontier = Scanned pushed' frontier'
     else st ! k \<notin> walls ! k \<and> k < length st \<and> k < length mc \<and> k < length walls
       \<and> scan_obstacles st mp mc walls ks (pushed[k := True]) (frontier @ [k])
           = Scanned pushed' frontier')"
  using assms by (simp split: if_splits)

lemma scan_obstacles_Cons_Stopped:
  assumes "scan_obstacles st mp mc walls (k # ks) pushed frontier = Stopped p"
  shows "k < length pushed \<and>
    (if pushed ! k \<or> np_subtract mp (st ! k) \<notin> mc ! k
     then scan_obstacles st mp mc walls ks pushed frontier = Stopped p
     else if st ! k \<in> walls ! k then p = take 1 pushed @ replicate (length pushed - 1) False
     else scan_obstacles st mp mc walls ks (pushed[k := True]) (frontier @ [k]) = Stopped p)"
  using assms by (simp split: if_splits)

lemma scan_obstacles_Scanned:
  assumes "scan_obstacles st mp mc walls ks pushed frontier = Scanned pushed' frontier'"
  shows "length pushed' = length pushed
    \<and> marked pushed' = marked pushed \<union> {k \<in> set ks. np_subtract mp (st ! k) \<in> mc ! k}
    \<and> (\<exists>new. frontier' = frontier @ new \<and> distinct new
           \<and> set new = marked pushed' - marked pushed)
    \<and> (\<forall>k \<in> marked pushed' - marked pushed. st ! k \<notin> walls ! k)"
  using assms
proof (induction ks arbitrary: pushed frontier)
  case Nil
  then show ?case by simp
next
  case (Cons k ks)
  note inv = scan_obstacles_Cons_Scanned [OF Cons.prems]
  then have kl: "k < length pushed" by simp
  show ?case
  proof (cases "pushed ! k \<or> np_subtract mp (st ! k) \<notin> mc ! k")
    case True
    with inv have "scan_obstacles st mp mc walls ks pushed frontier = Scanned pushed' frontier'"
      by simp
    note IH = Cons.IH [OF this]
    have "marked pushed \<union> {k' \<in> set (k # ks). np_subtract mp (st ! k') \<in> mc ! k'}
        = marked pushed \<union> {k' \<in> set ks. np_subtract mp (st ! k') \<in> mc ! k'}"
      using True kl by (auto simp: marked_def)
    then have "marked pushed' = marked pushed \<union> {k' \<in> set (k # ks). np_subtract mp (st ! k') \<in> mc ! k'}"
      using IH [THEN conjunct2, THEN conjunct1] by (simp only:)
    then show ?thesis
      using IH [THEN conjunct1] IH [THEN conjunct2, THEN conjunct2] by (intro conjI) blast+
  next
    case False
    with inv have run: "scan_obstacles st mp mc walls ks (pushed[k := True]) (frontier @ [k])
        = Scanned pushed' frontier'"
      and k: "st ! k \<notin> walls ! k"
      by simp_all
    note IH = Cons.IH [OF run]
    from IH obtain new where new: "frontier' = (frontier @ [k]) @ new" "distinct new"
      "set new = marked pushed' - marked (pushed[k := True])"
      by blast
    have km: "k \<notin> marked pushed" using False by (simp add: marked_def)
    have m: "marked (pushed[k := True]) = insert k (marked pushed)"
      using kl by (simp add: marked_update)
    have mp: "marked pushed' = insert k (marked pushed) \<union> {k \<in> set ks. np_subtract mp (st ! k) \<in> mc ! k}"
      using IH m by simp
    have "frontier' = frontier @ (k # new)" using new by simp
    moreover have "distinct (k # new)" using new m by simp
    moreover have "set (k # new) = marked pushed' - marked pushed"
      using new(3) m mp km by auto
    ultimately have 3: "\<exists>new. frontier' = frontier @ new \<and> distinct new
           \<and> set new = marked pushed' - marked pushed"
      by blast
    have 2: "marked pushed' = marked pushed \<union> {k' \<in> set (k # ks). np_subtract mp (st ! k') \<in> mc ! k'}"
      using mp False by auto
    have 4: "\<forall>k' \<in> marked pushed' - marked pushed. st ! k' \<notin> walls ! k'"
      using IH m k by auto
    from IH have "length pushed' = length pushed" by simp
    with 2 3 4 show ?thesis by (intro conjI) blast+
  qed
qed

lemma scan_obstacles_Stopped:
  assumes "scan_obstacles st mp mc walls ks pushed frontier = Stopped p"
    and "0 \<notin> set ks"
  shows "p = take 1 pushed @ replicate (length pushed - 1) False
    \<and> (\<exists>k \<in> set ks. \<not> pushed ! k \<and> np_subtract mp (st ! k) \<in> mc ! k \<and> st ! k \<in> walls ! k)"
  using assms
proof (induction ks arbitrary: pushed frontier)
  case Nil
  then show ?case by simp
next
  case (Cons k ks)
  note inv = scan_obstacles_Cons_Stopped [OF Cons.prems(1)]
  from Cons.prems(2) have k0: "k \<noteq> 0" and ks0: "0 \<notin> set ks" by auto
  consider (skip) "pushed ! k \<or> np_subtract mp (st ! k) \<notin> mc ! k"
    | (wall) "\<not> pushed ! k" "np_subtract mp (st ! k) \<in> mc ! k" "st ! k \<in> walls ! k"
    | (push) "\<not> pushed ! k" "np_subtract mp (st ! k) \<in> mc ! k" "st ! k \<notin> walls ! k"
    by blast
  then show ?case
  proof cases
    case skip
    with inv have "scan_obstacles st mp mc walls ks pushed frontier = Stopped p" by simp
    from Cons.IH [OF this ks0] show ?thesis by auto
  next
    case wall
    with inv show ?thesis by simp
  next
    case push
    with inv have "scan_obstacles st mp mc walls ks (pushed[k := True]) (frontier @ [k]) = Stopped p"
      by simp
    from Cons.IH [OF this ks0] obtain k' where
      p: "p = take 1 (pushed[k := True]) @ replicate (length (pushed[k := True]) - 1) False"
      and k': "k' \<in> set ks" "\<not> pushed[k := True] ! k'" "np_subtract mp (st ! k') \<in> mc ! k'"
        "st ! k' \<in> walls ! k'"
      by blast
    from inv have kl: "k < length pushed" by simp
    from k'(2) kl have "\<not> pushed ! k'" by (cases "k' = k") simp_all
    moreover from p k0 have "p = take 1 pushed @ replicate (length pushed - 1) False"
      by (simp add: take_update_cancel)
    ultimately show ?thesis using k' by auto
  qed
qed

lemma scan_obstacles_not_Raised:
  assumes "\<forall>k \<in> set ks. k < length pushed \<and> k < length st \<and> k < length mc \<and> k < length walls"
  shows "scan_obstacles st mp mc walls ks pushed frontier \<noteq> Raised e p"
  using assms
proof (induction ks arbitrary: pushed frontier)
  case Nil
  then show ?case by simp
next
  case (Cons k ks)
  then have "\<forall>k \<in> set ks. k < length (pushed[k := True]) \<and> k < length st \<and> k < length mc \<and> k < length walls"
    by simp
  with Cons show ?case by simp
qed

subsection \<open>The propagation loop\<close>

lemma in_chain_bound:
  "in_chain pz st action k \<Longrightarrow> 0 < num_movables pz \<Longrightarrow> k < num_movables pz"
  by (induction rule: in_chain.induct) (simp_all add: AGENT_IDX_def)

lemma propagation_inv_start:
  assumes "well_formed pz"
  shows "propagation_inv pz st action [AGENT_IDX] (pushed_objects pz)"
proof -
  from assms have p: "pushed_objects pz = True # replicate (num_movables pz - 1) False"
    and n: "1 \<le> num_movables pz"
    by (simp_all add: well_formed_def)
  have "i \<in> marked (True # replicate (num_movables pz - 1) False) \<longleftrightarrow> i = 0" for i
    by (cases i) (auto simp: marked_def)
  then have "marked (pushed_objects pz) = {0}"
    unfolding p by blast
  moreover have "length (pushed_objects pz) = num_movables pz" using p n by simp
  ultimately show ?thesis
    by (simp add: propagation_inv_def AGENT_IDX_def in_chain.agent [unfolded AGENT_IDX_def])
qed

lemma propagation_inv_step:
  assumes inv: "propagation_inv pz st action frontier pushed"
    and m: "m \<in> set frontier"
    and rest: "set rest \<subseteq> set frontier" "set frontier \<subseteq> insert m (set rest)"
    and scan: "scan_obstacles st (st ! m) (movable_collision_map pz ! nat action ! m)
                 (wall_collision_map pz ! nat action) [1 ..< num_movables pz] pushed rest
               = Scanned pushed' frontier'"
  shows "propagation_inv pz st action frontier' pushed'"
proof -
  note S = scan_obstacles_Scanned [OF scan]
  from S have len: "length pushed' = length pushed" by simp
  from S have mk: "marked pushed' = marked pushed \<union>
      {k \<in> set [1 ..< num_movables pz]. pushes pz st action m k}"
    by (simp only: pushes_def)
  from S obtain new where new: "frontier' = rest @ new" "set new = marked pushed' - marked pushed"
    by blast
  from S have nw: "\<forall>k \<in> marked pushed' - marked pushed. \<not> wall_blocked pz st action k"
    by (simp only: wall_blocked_def) blast
  from inv have I: "length pushed = num_movables pz" "set frontier \<subseteq> marked pushed"
    "0 \<in> marked pushed" "\<forall>k \<in> marked pushed. in_chain pz st action k"
    "\<forall>m \<in> marked pushed - set frontier. \<forall>k. 1 \<le> k \<and> k < num_movables pz
            \<and> pushes pz st action m k \<longrightarrow> k \<in> marked pushed"
    "\<forall>k \<in> marked pushed. k \<noteq> 0 \<longrightarrow> \<not> wall_blocked pz st action k"
    by (simp_all add: propagation_inv_def)
  have mc: "in_chain pz st action m" using I(2,4) m by blast
  have 1: "set frontier' \<subseteq> marked pushed'" using new rest I(2) mk by auto
  have 2: "0 \<in> marked pushed'" using I(3) mk by simp
  have 3: "\<forall>k \<in> marked pushed'. in_chain pz st action k"
    using mk I(4) mc by (auto intro: in_chain.pushed)
  have 4: "\<forall>m' \<in> marked pushed' - set frontier'. \<forall>k. 1 \<le> k \<and> k < num_movables pz
            \<and> pushes pz st action m' k \<longrightarrow> k \<in> marked pushed'"
  proof (intro ballI allI impI)
    fix m' k
    assume m': "m' \<in> marked pushed' - set frontier'"
      and k: "1 \<le> k \<and> k < num_movables pz \<and> pushes pz st action m' k"
    from m' new have old: "m' \<in> marked pushed" and nr: "m' \<notin> set rest" by auto
    show "k \<in> marked pushed'"
    proof (cases "m' = m")
      case True
      with k mk show ?thesis by simp
    next
      case False
      with nr rest(2) have "m' \<notin> set frontier" by blast
      with old I(5) k have "k \<in> marked pushed" by blast
      with mk show ?thesis by simp
    qed
  qed
  have 5: "\<forall>k \<in> marked pushed'. k \<noteq> 0 \<longrightarrow> \<not> wall_blocked pz st action k"
    using I(6) nw by blast
  from len I(1) 1 2 3 4 5 show ?thesis by (simp add: propagation_inv_def)
qed

lemma propagation_inv_stop:
  assumes inv: "propagation_inv pz st action frontier pushed"
    and m: "m \<in> set frontier"
    and scan: "scan_obstacles st (st ! m) (movable_collision_map pz ! nat action ! m)
                 (wall_collision_map pz ! nat action) [1 ..< num_movables pz] pushed rest
               = Stopped p"
  shows "p = True # replicate (num_movables pz - 1) False
    \<and> (\<exists>k. in_chain pz st action k \<and> k \<noteq> 0 \<and> wall_blocked pz st action k)"
proof -
  have "0 \<notin> set [1 ..< num_movables pz]" by simp
  from scan_obstacles_Stopped [OF scan this] obtain k where
    p: "p = take 1 pushed @ replicate (length pushed - 1) False"
    and k: "k \<in> set [1 ..< num_movables pz]" "pushes pz st action m k" "wall_blocked pz st action k"
    unfolding pushes_def wall_blocked_def by blast
  from inv have I: "length pushed = num_movables pz" "set frontier \<subseteq> marked pushed"
    "0 \<in> marked pushed" "\<forall>k \<in> marked pushed. in_chain pz st action k"
    by (simp_all add: propagation_inv_def)
  from I(3) have "take 1 pushed = [True]"
    by (cases pushed) (simp_all add: marked_def)
  with p I(1) have "p = True # replicate (num_movables pz - 1) False" by simp
  moreover have "in_chain pz st action m" using I(2,4) m by blast
  with k have "in_chain pz st action k" by (auto intro: in_chain.pushed)
  ultimately show ?thesis using k by auto
qed

lemma propagation_inv_done:
  assumes inv: "propagation_inv pz st action [] pushed"
  shows "pushed = map (in_chain pz st action) [0 ..< num_movables pz]
    \<and> (\<forall>k. in_chain pz st action k \<and> k \<noteq> 0 \<longrightarrow> \<not> wall_blocked pz st action k)"
proof -
  from inv have I: "length pushed = num_movables pz"
    "0 \<in> marked pushed" "\<forall>k \<in> marked pushed. in_chain pz st action k"
    "\<forall>m \<in> marked pushed. \<forall>k. 1 \<le> k \<and> k < num_movables pz
            \<and> pushes pz st action m k \<longrightarrow> k \<in> marked pushed"
    "\<forall>k \<in> marked pushed. k \<noteq> 0 \<longrightarrow> \<not> wall_blocked pz st action k"
    by (simp_all add: propagation_inv_def)
  have closed: "in_chain pz st action k \<Longrightarrow> k \<in> marked pushed" for k
    by (induction rule: in_chain.induct) (use I(2,4) in \<open>auto simp: AGENT_IDX_def\<close>)
  have "pushed ! i = in_chain pz st action i" if "i < num_movables pz" for i
    using closed [of i] I(3) I(1) that by (auto simp: marked_def)
  then have "pushed = map (in_chain pz st action) [0 ..< num_movables pz]"
    using I(1) by (intro nth_equalityI) simp_all
  with closed I(5) show ?thesis by blast
qed

lemma well_formed_tables:
  assumes "well_formed pz" and "0 \<le> action" and "action < 4"
  shows "py_index (agent_collision_map pz) action = Inr (agent_collision_map pz ! nat action)"
    and "py_index (wall_collision_map pz) action = Inr (wall_collision_map pz ! nat action)"
    and "py_index (movable_collision_map pz) action = Inr (movable_collision_map pz ! nat action)"
    and "py_index DISPLACEMENTS action = Inr (DISPLACEMENTS ! nat action)"
    and "length (wall_collision_map pz ! nat action) = num_movables pz"
    and "length (movable_collision_map pz ! nat action) = num_movables pz"
    and "m < num_movables pz \<Longrightarrow> length (movable_collision_map pz ! nat action ! m) = num_movables pz"
proof -
  from assms have n: "nat action < 4" by simp
  from assms(1) have l: "length (agent_collision_map pz) = 4" "length (wall_collision_map pz) = 4"
    "length (movable_collision_map pz) = 4"
    by (simp_all add: well_formed_def NUM_ACTIONS_def)
  from assms(2,3) l show "py_index (agent_collision_map pz) action = Inr (agent_collision_map pz ! nat action)"
    "py_index (wall_collision_map pz) action = Inr (wall_collision_map pz ! nat action)"
    "py_index (movable_collision_map pz) action = Inr (movable_collision_map pz ! nat action)"
    "py_index DISPLACEMENTS action = Inr (DISPLACEMENTS ! nat action)"
    by (simp_all add: py_index_def DISPLACEMENTS_def)
  from n l have w: "wall_collision_map pz ! nat action \<in> set (wall_collision_map pz)"
    and mm: "movable_collision_map pz ! nat action \<in> set (movable_collision_map pz)"
    by simp_all
  from assms(1) w show "length (wall_collision_map pz ! nat action) = num_movables pz"
    unfolding well_formed_def by blast
  from assms(1) mm show lm: "length (movable_collision_map pz ! nat action) = num_movables pz"
    unfolding well_formed_def by blast
  show "length (movable_collision_map pz ! nat action ! m) = num_movables pz"
    if "m < num_movables pz"
  proof -
    from that lm have "movable_collision_map pz ! nat action ! m
        \<in> set (movable_collision_map pz ! nat action)"
      by simp
    with assms(1) mm show ?thesis unfolding well_formed_def by blast
  qed
qed

lemma visit_well_formed:
  assumes "well_formed pz" and "0 \<le> action" and "action < 4"
    and "m < num_movables pz" and "num_movables pz \<le> length st"
  shows "visit pz st action walls m rest pushed =
     scan_obstacles st (st ! m) (movable_collision_map pz ! nat action ! m) walls
       [1 ..< num_movables pz] pushed rest"
  using assms well_formed_tables(3,6) [OF assms(1,2,3)] by (simp add: visit_def)

lemma propagate_chain:
  assumes wf: "well_formed pz" and a: "0 \<le> action" "action < 4"
    and st: "num_movables pz \<le> length st"
    and walls: "walls = wall_collision_map pz ! nat action"
    and inv: "propagation_inv pz st action frontier pushed"
  shows "fst (propagate pz st action walls frontier pushed popped) =
     (if \<exists>k. in_chain pz st action k \<and> k \<noteq> 0 \<and> wall_blocked pz st action k
      then Halted (at_rest pz)
      else Completed (map (in_chain pz st action) [0 ..< num_movables pz]))"
  using assms
proof (induction pz st action walls frontier pushed popped rule: propagate.induct)
  case (1 pz st action walls frontier pushed popped)
  note T = well_formed_tables [OF "1.prems"(1,2,3)]
  show ?case
  proof (cases "frontier = []")
    case True
    with "1.prems"(6) propagation_inv_done [of pz st action pushed] show ?thesis
      by (auto simp add: propagate.simps [of pz st action walls "[]"])
  next
    case False
    let ?m = "last frontier"
    from False have mf: "?m \<in> set frontier" by simp
    from "1.prems"(6) have I: "length pushed = num_movables pz" "set frontier \<subseteq> marked pushed"
      by (simp_all add: propagation_inv_def)
    from mf I have mn: "?m < num_movables pz" by (auto simp: marked_def)
    with "1.prems"(4) have ms: "?m < length st" by simp
    let ?scan = "scan_obstacles st (st ! ?m) (movable_collision_map pz ! nat action ! ?m) walls
       [1 ..< num_movables pz] pushed (butlast frontier)"
    note V = visit_well_formed [OF "1.prems"(1,2,3) mn "1.prems"(4)]
    have unfold: "propagate pz st action walls frontier pushed popped =
      (case ?scan of
         Scanned pushed' frontier' \<Rightarrow>
           propagate pz st action walls frontier' pushed' (popped @ [?m])
       | Stopped pushed' \<Rightarrow> (Halted pushed', popped @ [?m])
       | Raised e pushed' \<Rightarrow> (Failed e pushed', popped @ [?m]))"
      using False by (simp add: propagate.simps [of pz st action walls frontier] V)
    show ?thesis
    proof (cases ?scan)
      case (Scanned pushed' frontier')
      have rest: "set (butlast frontier) \<subseteq> set frontier"
        "set frontier \<subseteq> insert ?m (set (butlast frontier))"
        using False
        by (auto dest: in_set_butlastD) (metis append_butlast_last_id insert_iff set_append
              Un_iff list.set(1,2) empty_iff)
      from Scanned "1.prems"(5) have "scan_obstacles st (st ! ?m) (movable_collision_map pz ! nat action ! ?m)
                 (wall_collision_map pz ! nat action) [1 ..< num_movables pz] pushed (butlast frontier)
               = Scanned pushed' frontier'"
        by simp
      from propagation_inv_step [OF "1.prems"(6) mf rest this]
      have inv': "propagation_inv pz st action frontier' pushed'" .
      have "fst (propagate pz st action walls frontier' pushed' (popped @ [last frontier])) =
        (if \<exists>k. in_chain pz st action k \<and> k \<noteq> 0 \<and> wall_blocked pz st action k
         then Halted (at_rest pz)
         else Completed (map (in_chain pz st action) [0 ..< num_movables pz]))"
        using False Scanned
        by (intro "1.IH" [OF _ _ "1.prems"(1,2,3,4,5) inv']) (simp_all add: V)
      with unfold Scanned show ?thesis by simp
    next
      case (Stopped p)
      with "1.prems"(5) have "scan_obstacles st (st ! ?m) (movable_collision_map pz ! nat action ! ?m)
                 (wall_collision_map pz ! nat action) [1 ..< num_movables pz] pushed (butlast frontier)
               = Stopped p"
        by simp
      from propagation_inv_stop [OF "1.prems"(6) mf this] unfold Stopped show ?thesis
        by (simp add: at_rest_def)
    next
      case (Raised e p)
      have "\<forall>k \<in> set [1 ..< num_movables pz]. k < length pushed \<and> k < length st
          \<and> k < length (movable_collision_map pz ! nat action ! ?m) \<and> k < length walls"
        using I(1) "1.prems"(4,5) T(5) T(7) [OF mn] by simp
      from scan_obstacles_not_Raised [OF this] Raised show ?thesis by blast
    qed
  qed
qed

subsection \<open>Any order of pops\<close>

lemma propagate_any_order:
  "any_order pz st action walls frontier pushed
     (fst (propagate pz st action walls frontier pushed popped))"
proof (induction pz st action walls frontier pushed popped rule: propagate.induct)
  case (1 pz st action walls frontier pushed popped)
  show ?case
  proof (cases "frontier = []")
    case True
    then show ?thesis
      by (simp add: propagate.simps [of pz st action walls "[]"] any_order.empty)
  next
    case False
    define i where "i = length frontier - 1"
    from False have i: "i < length frontier" by (simp add: i_def)
    from False have l: "frontier ! i = last frontier"
      by (simp add: i_def last_conv_nth)
    from False have b: "take i frontier @ drop (Suc i) frontier = butlast frontier"
      by (simp add: i_def butlast_conv_take)
    let ?v = "visit pz st action walls (last frontier) (butlast frontier) pushed"
    show ?thesis
    proof (cases ?v)
      case (Scanned pushed' frontier')
      with False "1.IH" [of pushed' frontier']
      have "any_order pz st action walls frontier' pushed'
          (fst (propagate pz st action walls frontier pushed popped))"
        by (simp add: propagate.simps [of pz st action walls frontier])
      with i Scanned show ?thesis
        using any_order.scanned [of i frontier pz st action walls pushed pushed' frontier']
        by (simp add: l b)
    next
      case (Stopped p)
      with False have "fst (propagate pz st action walls frontier pushed popped) = Halted p"
        by (simp add: propagate.simps [of pz st action walls frontier])
      with i Stopped show ?thesis
        using any_order.stopped [of i frontier pz st action walls pushed p] by (simp add: l b)
    next
      case (Raised e p)
      with False have "fst (propagate pz st action walls frontier pushed popped) = Failed e p"
        by (simp add: propagate.simps [of pz st action walls frontier])
      with i Raised show ?thesis
        using any_order.raised [of i frontier pz st action walls pushed e p] by (simp add: l b)
    qed
  qed
qed

lemma any_order_chain:
  assumes run: "any_order pz st action walls frontier pushed r"
    and wf: "well_formed pz" and a: "0 \<le> action" "action < 4"
    and st: "num_movables pz \<le> length st"
    and walls: "walls = wall_collision_map pz ! nat action"
    and inv: "propagation_inv pz st action frontier pushed"
  shows "r = (if \<exists>k. in_chain pz st action k \<and> k \<noteq> 0 \<and> wall_blocked pz st action k
      then Halted (at_rest pz)
      else Completed (map (in_chain pz st action) [0 ..< num_movables pz]))"
  using run inv
proof (induction rule: any_order.induct)
  case (empty pushed)
  with propagation_inv_done [of pz st action pushed] show ?case by auto
next
  case (scanned i frontier pushed pushed' frontier' r)
  let ?m = "frontier ! i"
  let ?rest = "take i frontier @ drop (Suc i) frontier"
  from scanned.hyps(1) have mf: "?m \<in> set frontier" by simp
  from scanned.prems have "set frontier \<subseteq> marked pushed" "length pushed = num_movables pz"
    by (simp_all add: propagation_inv_def)
  with mf have mn: "?m < num_movables pz" by (auto simp: marked_def)
  have rest: "set ?rest \<subseteq> set frontier" "set frontier \<subseteq> insert ?m (set ?rest)"
  proof -
    have "frontier = take i frontier @ ?m # drop (Suc i) frontier"
      using scanned.hyps(1) by (rule id_take_nth_drop)
    then have "set frontier = insert ?m (set ?rest)"
      by (metis Un_insert_right list.simps(15) set_append)
    then show "set ?rest \<subseteq> set frontier" "set frontier \<subseteq> insert ?m (set ?rest)" by auto
  qed
  from scanned.hyps(2) have "scan_obstacles st (st ! ?m) (movable_collision_map pz ! nat action ! ?m)
      (wall_collision_map pz ! nat action) [1 ..< num_movables pz] pushed ?rest
    = Scanned pushed' frontier'"
    by (simp add: visit_well_formed [OF wf a mn st] walls)
  from propagation_inv_step [OF scanned.prems mf rest this] show ?case
    by (rule scanned.IH)
next
  case (stopped i frontier pushed pushed')
  let ?m = "frontier ! i"
  from stopped.hyps(1) have mf: "?m \<in> set frontier" by simp
  from stopped.prems have "set frontier \<subseteq> marked pushed" "length pushed = num_movables pz"
    by (simp_all add: propagation_inv_def)
  with mf have mn: "?m < num_movables pz" by (auto simp: marked_def)
  from stopped.hyps(2) have "scan_obstacles st (st ! ?m) (movable_collision_map pz ! nat action ! ?m)
      (wall_collision_map pz ! nat action) [1 ..< num_movables pz] pushed
      (take i frontier @ drop (Suc i) frontier) = Stopped pushed'"
    by (simp add: visit_well_formed [OF wf a mn st] walls)
  from propagation_inv_stop [OF stopped.prems mf this] show ?case
    by (auto simp: at_rest_def)
next
  case (raised i frontier pushed e pushed')
  let ?m = "frontier ! i"
  from raised.hyps(1) have mf: "?m \<in> set frontier" by simp
  from raised.prems have I: "set frontier \<subseteq> marked pushed" "length pushed = num_movables pz"
    by (simp_all add: propagation_inv_def)
  with mf have mn: "?m < num_movables pz" by (auto simp: marked_def)
  note T = well_formed_tables [OF wf a]
  have "\<forall>k \<in> set [1 ..< num_movables pz]. k < length pushed \<and> k < length st
      \<and> k < length (movable_collision_map pz ! nat action ! ?m) \<and> k < length walls"
    using I(2) st walls T(5) T(7) [OF mn] by simp
  from scan_obstacles_not_Raised [OF this] raised.hyps(2) show ?case
    by (simp add: visit_well_formed [OF wf a mn st])
qed

subsection \<open>The pops\<close>

lemma visit_Scanned:
  assumes "visit pz st action walls m rest pushed = Scanned pushed' frontier'"
  shows "marked pushed \<subseteq> marked pushed'
    \<and> (\<exists>new. frontier' = rest @ new \<and> distinct new \<and> set new = marked pushed' - marked pushed)"
proof -
  from assms obtain mc where
    "scan_obstacles st (st ! m) mc walls [1 ..< num_movables pz] pushed rest = Scanned pushed' frontier'"
    unfolding visit_def by (auto split: if_splits sum.splits)
  from scan_obstacles_Scanned [OF this] show ?thesis by blast
qed

lemma propagate_popped:
  assumes "distinct (popped @ frontier)" and "set (popped @ frontier) \<subseteq> marked pushed"
  shows "distinct (snd (propagate pz st action walls frontier pushed popped))
    \<and> length (snd (propagate pz st action walls frontier pushed popped))
        \<le> length popped + length frontier + unmarked pushed"
  using assms
proof (induction pz st action walls frontier pushed popped rule: propagate.induct)
  case (1 pz st action walls frontier pushed popped)
  show ?case
  proof (cases "frontier = []")
    case True
    with "1.prems" show ?thesis
      by (simp add: propagate.simps [of pz st action walls "[]"])
  next
    case False
    then have fr: "frontier = butlast frontier @ [last frontier]" by simp
    have d: "distinct ((popped @ [last frontier]) @ butlast frontier)"
      using "1.prems"(1) by (subst (asm) fr) auto
    have s: "set ((popped @ [last frontier]) @ butlast frontier) = set (popped @ frontier)"
      by (subst (3) fr) auto
    let ?v = "visit pz st action walls (last frontier) (butlast frontier) pushed"
    show ?thesis
    proof (cases ?v)
      case (Scanned pushed' frontier')
      from visit_Scanned [OF Scanned] obtain new where
        sub: "marked pushed \<subseteq> marked pushed'"
        and new: "frontier' = butlast frontier @ new" "distinct new"
          "set new = marked pushed' - marked pushed"
        by blast
      have old: "set ((popped @ [last frontier]) @ butlast frontier) \<subseteq> marked pushed"
        using s "1.prems"(2) by simp
      have d': "distinct ((popped @ [last frontier]) @ frontier')"
        using d old new by (simp only: append_assoc [symmetric] distinct_append) blast
      have "set ((popped @ [last frontier]) @ frontier')
          = set ((popped @ [last frontier]) @ butlast frontier) \<union> set new"
        using new(1) by auto
      with old sub new(3) have s': "set ((popped @ [last frontier]) @ frontier') \<subseteq> marked pushed'"
        by blast
      from "1.IH" [OF False Scanned d' s']
      have IH: "distinct (snd (propagate pz st action walls frontier' pushed' (popped @ [last frontier])))"
        "length (snd (propagate pz st action walls frontier' pushed' (popped @ [last frontier])))
           \<le> length (popped @ [last frontier]) + length frontier' + unmarked pushed'"
        by simp_all
      from visit_budget [OF Scanned]
      have "length frontier' + unmarked pushed' = length (butlast frontier) + unmarked pushed" .
      moreover from False have "Suc (length (butlast frontier)) = length frontier" by simp
      moreover have "length (popped @ [last frontier]) = Suc (length popped)" by simp
      ultimately have "length (popped @ [last frontier]) + length frontier' + unmarked pushed'
          = length popped + length frontier + unmarked pushed"
        by linarith
      with IH False Scanned show ?thesis
        by (simp add: propagate.simps [of pz st action walls frontier])
    next
      case (Stopped p)
      from False have "Suc 0 \<le> length frontier + unmarked pushed"
        by (cases frontier) simp_all
      with Stopped False d show ?thesis
        by (simp add: propagate.simps [of pz st action walls frontier])
    next
      case (Raised e p)
      from False have "Suc 0 \<le> length frontier + unmarked pushed"
        by (cases frontier) simp_all
      with Raised False d show ?thesis
        by (simp add: propagate.simps [of pz st action walls frontier])
    qed
  qed
qed

lemma unmarked_bound:
  assumes "pushed ! 0" and "0 < length pushed"
  shows "Suc (unmarked pushed) \<le> length pushed"
  using assms by (cases pushed) (simp_all add: unmarked_def le_imp_less_Suc)

subsection \<open>The transition as a function of the chain\<close>

lemma displace_eq:
  assumes "\<forall>i \<in> set idxs. i < length pushed \<and> i < length st" and "distinct idxs"
    and "length next_state = length st"
  shows "displace d st idxs pushed next_state =
     (Inr (map (\<lambda>j. if j \<in> set idxs then (if pushed ! j then np_add d (st ! j) else st ! j)
                   else next_state ! j) [0 ..< length st]),
      map (\<lambda>j. if j \<in> set idxs then False else pushed ! j) [0 ..< length pushed])"
  using assms
proof (induction idxs arbitrary: pushed next_state)
  case Nil
  from Nil(3) have "map ((!) next_state) [0 ..< length st] = next_state"
    using map_nth [of next_state] by simp
  then show ?case by (simp add: map_nth)
next
  case (Cons i idxs)
  from Cons.prems have i: "i < length pushed" "i < length st" "i \<notin> set idxs" by simp_all
  let ?p = "if pushed ! i then pushed[i := False] else pushed"
  let ?n = "if pushed ! i then next_state[i := np_add d (st ! i)] else next_state[i := st ! i]"
  have step: "displace d st (i # idxs) pushed next_state = displace d st idxs ?p ?n"
    using i by simp
  have pre: "\<forall>i \<in> set idxs. i < length ?p \<and> i < length st" "distinct idxs" "length ?n = length st"
    using Cons.prems by simp_all
  have a: "map (\<lambda>j. if j \<in> set idxs then (if ?p ! j then np_add d (st ! j) else st ! j)
                   else ?n ! j) [0 ..< length st]
      = map (\<lambda>j. if j \<in> set (i # idxs) then (if pushed ! j then np_add d (st ! j) else st ! j)
                   else next_state ! j) [0 ..< length st]"
    using i Cons.prems(3) by (auto simp: nth_list_update)
  have b: "map (\<lambda>j. if j \<in> set idxs then False else ?p ! j) [0 ..< length ?p]
      = map (\<lambda>j. if j \<in> set (i # idxs) then False else pushed ! j) [0 ..< length pushed]"
    using i by (auto simp: nth_list_update)
  show ?case
    unfolding step Cons.IH [OF pre] a b ..
qed

lemma get_next_state_chain:
  assumes wf: "well_formed pz" and a: "0 \<le> action" "action < 4"
    and st: "num_movables pz \<le> length st"
  shows "get_next_state pz st action =
     (if st ! AGENT_IDX \<in> agent_collision_map pz ! nat action
         \<or> (\<exists>k. in_chain pz st action k \<and> k \<noteq> 0 \<and> wall_blocked pz st action k)
      then (Inr st, pz)
      else (Inr (displaced pz st action), pz))"
proof -
  note T = well_formed_tables [OF wf a]
  from wf have n: "1 \<le> num_movables pz"
    and p: "pushed_objects pz = at_rest pz"
    by (simp_all add: well_formed_def at_rest_def)
  from n st have ne: "AGENT_IDX < length st" by (cases st) (simp_all add: AGENT_IDX_def)
  have same: "pz\<lparr>pushed_objects := at_rest pz\<rparr> = pz" using p by simp
  note P = propagate_chain [OF wf a st refl propagation_inv_start [OF wf], of "[]"]
  show ?thesis
  proof (cases "st ! AGENT_IDX \<in> agent_collision_map pz ! nat action")
    case True
    with ne T(1) show ?thesis by (simp add: get_next_state_def)
  next
    case nb: False
    show ?thesis
    proof (cases "\<exists>k. in_chain pz st action k \<and> k \<noteq> 0 \<and> wall_blocked pz st action k")
      case True
      with P have "fst (propagate pz st action (wall_collision_map pz ! nat action) [AGENT_IDX]
          (pushed_objects pz) []) = Halted (at_rest pz)"
        by simp
      with ne nb T(1,2) True same show ?thesis by (simp add: get_next_state_def)
    next
      case False
      let ?marks = "map (in_chain pz st action) [0 ..< num_movables pz]"
      let ?d = "DISPLACEMENTS ! nat action"
      from False P have C: "fst (propagate pz st action (wall_collision_map pz ! nat action) [AGENT_IDX]
          (pushed_objects pz) []) = Completed ?marks"
        by simp
      have pre: "\<forall>i \<in> set [1 ..< num_movables pz]. i < length ?marks \<and> i < length st"
        "distinct [1 ..< num_movables pz]" "length (st[0 := np_add ?d (st ! 0)]) = length st"
        using st by simp_all
      have c0: "in_chain pz st action 0" using in_chain.agent [of pz st action] by (simp add: AGENT_IDX_def)
      have cb: "in_chain pz st action j \<Longrightarrow> j < num_movables pz" for j
        using in_chain_bound [of pz st action j] n by simp
      have s: "map (\<lambda>j. if j \<in> set [1 ..< num_movables pz]
                     then (if ?marks ! j then np_add ?d (st ! j) else st ! j)
                     else st[0 := np_add ?d (st ! 0)] ! j) [0 ..< length st]
          = displaced pz st action"
        unfolding displaced_def
      proof (rule map_cong [OF refl])
        fix j assume "j \<in> set [0 ..< length st]"
        then have jl: "j < length st" by simp
        show "(if j \<in> set [1 ..< num_movables pz]
                     then (if ?marks ! j then np_add ?d (st ! j) else st ! j)
                     else st[0 := np_add ?d (st ! 0)] ! j)
           = (if in_chain pz st action j then np_add ?d (st ! j) else st ! j)"
        proof (cases "j = 0")
          case True
          with c0 jl show ?thesis by simp
        next
          case False
          with cb [of j] jl show ?thesis by auto
        qed
      qed
      have m: "map (\<lambda>j. if j \<in> set [1 ..< num_movables pz] then False else ?marks ! j)
                 [0 ..< length ?marks] = at_rest pz"
        unfolding at_rest_def
      proof (rule nth_equalityI)
        show "length (map (\<lambda>j. if j \<in> set [1 ..< num_movables pz] then False else ?marks ! j)
                 [0 ..< length ?marks]) = length (True # replicate (num_movables pz - 1) False)"
          using n by simp
      next
        fix i assume "i < length (map (\<lambda>j. if j \<in> set [1 ..< num_movables pz] then False else ?marks ! j)
                 [0 ..< length ?marks])"
        then have "i < num_movables pz" by simp
        then show "map (\<lambda>j. if j \<in> set [1 ..< num_movables pz] then False else ?marks ! j)
                 [0 ..< length ?marks] ! i = (True # replicate (num_movables pz - 1) False) ! i"
          using c0 by (cases i) simp_all
      qed
      have "displace ?d st [1 ..< num_movables pz] ?marks (st[0 := np_add ?d (st ! 0)])
          = (Inr (displaced pz st action), at_rest pz)"
        unfolding displace_eq [OF pre] s m ..
      with ne nb T(1,2,4) False C same show ?thesis by (auto simp add: get_next_state_def)
    qed
  qed
qed

lemma displaced_nth:
  "i < length st \<Longrightarrow> displaced pz st action ! i =
     (if in_chain pz st action i then np_add (DISPLACEMENTS ! nat action) (st ! i) else st ! i)"
  by (simp add: displaced_def)

subsection \<open>Plans\<close>

lemma get_next_state_goal_state:
  "goal_state (snd (get_next_state pz st action)) = goal_state pz"
  by (simp add: get_next_state_def split: sum.splits propagation.splits prod.splits)

lemma get_next_state_is_goal_state:
  "get_next_state pz st action = (r, pz') \<Longrightarrow> is_goal_state pz' = is_goal_state pz"
  using get_next_state_goal_state [of pz st action] by (simp add: is_goal_state_def fun_eq_iff)

lemma all_less_Suc_split:
  "(\<forall>k < Suc n. P k) \<longleftrightarrow> P 0 \<and> (\<forall>k < n. P (Suc k))"
  by (metis less_Suc_eq_0_disj Suc_less_eq zero_less_Suc)

lemma ex_le_Suc_split:
  "(\<exists>k \<le> Suc n. P k) \<longleftrightarrow> P 0 \<or> (\<exists>k \<le> n. P (Suc k))"
  by (metis Suc_le_mono le0 not0_implies_Suc)

lemma is_valid_plan_from_iff:
  "fst (is_valid_plan_from pz st plan) = Inr True \<longleftrightarrow>
     (\<exists>s. fst (replay pz st plan) = Inr s \<and> is_goal_state pz s)
     \<and> (\<forall>k < length plan. \<forall>s. fst (replay pz st (take k plan)) = Inr s \<longrightarrow> \<not> is_goal_state pz s)"
proof (induction plan arbitrary: pz st)
  case Nil
  show ?case by simp
next
  case (Cons action plan)
  show ?case
  proof (cases "is_goal_state pz st")
    case True
    then have "fst (is_valid_plan_from pz st (action # plan)) \<noteq> Inr True" by simp
    moreover from True have "\<not> (\<forall>k < length (action # plan). \<forall>s.
        fst (replay pz st (take k (action # plan))) = Inr s \<longrightarrow> \<not> is_goal_state pz s)"
      by (auto intro!: exI [of _ 0])
    ultimately show ?thesis by blast
  next
    case False
    obtain r pz' where g: "get_next_state pz st action = (r, pz')"
      by (cases "get_next_state pz st action")
    note frame = get_next_state_is_goal_state [OF g]
    show ?thesis
    proof (cases r)
      case (Inl e)
      with g False show ?thesis by simp
    next
      case (Inr st')
      with g False have l: "fst (is_valid_plan_from pz st (action # plan))
          = fst (is_valid_plan_from pz' st' plan)"
        by simp
      from g Inr have r: "replay pz st (action # plan') = replay pz' st' plan'" for plan'
        by simp
      have "(\<forall>k < length (action # plan). \<forall>s.
          fst (replay pz st (take k (action # plan))) = Inr s \<longrightarrow> \<not> is_goal_state pz s)
        \<longleftrightarrow> (\<forall>k < length plan. \<forall>s.
          fst (replay pz' st' (take k plan)) = Inr s \<longrightarrow> \<not> is_goal_state pz' s)"
        using False g Inr by (simp add: all_less_Suc_split frame)
      with Cons.IH [of pz' st'] l show ?thesis by (simp only: r frame)
    qed
  qed
qed

lemma bd_is_valid_plan_from_iff:
  "bd_is_valid_plan_from bp st plan = Inr True \<longleftrightarrow>
     (\<exists>k \<le> length plan. \<exists>s. bd_replay bp st (take k plan) = Inr s
        \<and> bd_is_goal_state bp s = Inr True)"
proof (induction plan arbitrary: st)
  case Nil
  show ?case by simp
next
  case (Cons action plan)
  have split: "(\<exists>k \<le> length (action # plan). \<exists>s. bd_replay bp st (take k (action # plan)) = Inr s
        \<and> bd_is_goal_state bp s = Inr True)
    \<longleftrightarrow> bd_is_goal_state bp st = Inr True
      \<or> (\<exists>k \<le> length plan. \<exists>s. bd_replay bp st (action # take k plan) = Inr s
        \<and> bd_is_goal_state bp s = Inr True)"
    by (simp add: ex_le_Suc_split)
  show ?case
  proof (cases "bd_is_goal_state bp st")
    case (Inl e)
    then have "\<not> AGENT_IDX < length st" by (simp add: bd_is_goal_state_def split: if_splits)
    then have "bd_get_next_state bp st action = Inl IndexError"
      by (simp add: bd_get_next_state_def)
    with Inl show ?thesis unfolding split by simp
  next
    case (Inr b)
    show ?thesis
    proof (cases b)
      case True
      with Inr show ?thesis unfolding split by simp
    next
      case False
      show ?thesis
      proof (cases "bd_get_next_state bp st action")
        case (Inl e)
        with Inr False show ?thesis unfolding split by simp
      next
        case (Inr st')
        with \<open>bd_is_goal_state bp st = Inr b\<close> False Cons.IH [of st'] show ?thesis
          unfolding split by simp
      qed
    qed
  qed
qed

subsection \<open>The corridor\<close>

lemma corridor_well_formed: "well_formed corridor"
  by (simp add: well_formed_def corridor_def NUM_ACTIONS_def)

lemma corridor_right:
  "get_next_state corridor [(1, 1), (2, 1)] 1 = (Inr [(2, 1), (3, 1)], corridor)"
  "get_next_state corridor [(2, 1), (3, 1)] 1 = (Inr [(3, 1), (4, 1)], corridor)"
  "get_next_state corridor [(3, 1), (4, 1)] 1 = (Inr [(3, 1), (4, 1)], corridor)"
  by (simp_all add: get_next_state_def propagate.simps visit_def corridor_def py_index_def
        np_subtract_def np_add_def int64_def AGENT_IDX_def DISPLACEMENTS_def upt_conv_Cons)

section \<open>The claims\<close>

text \<open>
  C1. For every state with coordinates in range and every action in \<open>[0, 4)\<close>: when the
  agent is not blocked and the propagation loop completes without a block, with \<open>marks\<close>
  the scratch array it leaves, \<open>get_next_state\<close> returns a state of the length of the
  input in which the agent and every movable index marked in \<open>marks\<close> are translated by
  exactly the displacement of the action and every other entry is the input's; the
  puzzle object is unchanged.
\<close>

theorem get_next_state_completed:
  assumes "well_formed pz" and "0 \<le> action" and "action < 4"
    and "num_movables pz \<le> length st"
    and "\<forall>p \<in> set st. in_range p"
    and "st ! AGENT_IDX \<notin> agent_collision_map pz ! nat action"
    and "fst (propagate pz st action (wall_collision_map pz ! nat action) [AGENT_IDX]
           (pushed_objects pz) []) = Completed marks"
  shows "\<exists>st'. get_next_state pz st action = (Inr st', pz)
    \<and> length st' = length st
    \<and> st' ! AGENT_IDX = translate (st ! AGENT_IDX) (DISPLACEMENTS ! nat action)
    \<and> (\<forall>i. 1 \<le> i \<and> i < num_movables pz \<longrightarrow>
          st' ! i = (if marks ! i then translate (st ! i) (DISPLACEMENTS ! nat action) else st ! i))
    \<and> (\<forall>i. num_movables pz \<le> i \<and> i < length st \<longrightarrow> st' ! i = st ! i)"
proof -
  note P = propagate_chain [OF assms(1,2,3,4) refl propagation_inv_start [OF assms(1)], of "[]"]
  from P assms(7) have nb: "\<not> (\<exists>k. in_chain pz st action k \<and> k \<noteq> 0 \<and> wall_blocked pz st action k)"
    and marks: "marks = map (in_chain pz st action) [0 ..< num_movables pz]"
    by (auto split: if_splits)
  from assms(1) have n: "0 < num_movables pz" by (simp add: well_formed_def)
  have "\<not> (st ! AGENT_IDX \<in> agent_collision_map pz ! nat action
         \<or> (\<exists>k. in_chain pz st action k \<and> k \<noteq> 0 \<and> wall_blocked pz st action k))"
    using nb assms(6) by blast
  then have g: "get_next_state pz st action = (Inr (displaced pz st action), pz)"
    using get_next_state_chain [OF assms(1,2,3,4)] by (simp only: if_False)
  have e: "np_add (DISPLACEMENTS ! nat action) (st ! i) = translate (st ! i) (DISPLACEMENTS ! nat action)"
    if "i < length st" for i
  proof -
    from that assms(5) have "in_range (st ! i)" by simp
    then show ?thesis using displacement_unit [OF assms(2,3)] by (rule np_add_translate(1))
  qed
  have l: "length (displaced pz st action) = length st" by (simp add: displaced_def)
  from n assms(4) have 0: "0 < length st" by linarith
  then have a: "displaced pz st action ! AGENT_IDX
      = translate (st ! AGENT_IDX) (DISPLACEMENTS ! nat action)"
    using in_chain.agent [of pz st action] e [of 0]
    by (simp add: displaced_nth AGENT_IDX_def)
  have m: "displaced pz st action ! i =
      (if marks ! i then translate (st ! i) (DISPLACEMENTS ! nat action) else st ! i)"
    if "1 \<le> i \<and> i < num_movables pz" for i
    using that assms(4) e [of i] by (simp add: displaced_nth marks)
  have r: "displaced pz st action ! i = st ! i" if "num_movables pz \<le> i \<and> i < length st" for i
    using that in_chain_bound [OF _ n, of st action i] by (auto simp: displaced_nth)
  from g l a m r show ?thesis by blast
qed

theorem get_next_state_completed_witness:
  "well_formed corridor \<and> (0::int) \<le> 1 \<and> (1::int) < 4
   \<and> num_movables corridor \<le> length [(1, 1), (2, 1) :: point]
   \<and> in_range (1, 1) \<and> in_range (2, 1)
   \<and> [(1, 1), (2, 1)] ! AGENT_IDX \<notin> agent_collision_map corridor ! nat 1
   \<and> fst (propagate corridor [(1, 1), (2, 1)] 1 (wall_collision_map corridor ! nat 1)
          [AGENT_IDX] (pushed_objects corridor) []) = Completed [True, True]
   \<and> get_next_state corridor [(1, 1), (2, 1)] 1 = (Inr [(2, 1), (3, 1)], corridor)"
proof -
  have h: "num_movables corridor \<le> length [(1, 1), (2, 1) :: point]"
    "[(1, 1), (2, 1)] ! AGENT_IDX \<notin> agent_collision_map corridor ! nat 1"
    by (simp_all add: corridor_def AGENT_IDX_def)
  have i: "in_range (1, 1)" "in_range (2, 1)" by (simp_all add: in_range_def)
  then have i': "\<forall>p \<in> set [(1, 1), (2, 1)]. in_range p" by simp
  have p: "fst (propagate corridor [(1, 1), (2, 1)] 1 (wall_collision_map corridor ! nat 1)
          [AGENT_IDX] (pushed_objects corridor) []) = Completed [True, True]"
    by (simp add: propagate.simps visit_def corridor_def py_index_def np_subtract_def int64_def
          AGENT_IDX_def upt_conv_Cons)
  have z: "(0::int) \<le> 1" "(1::int) < 4" by simp_all
  from get_next_state_completed [OF corridor_well_formed z h(1) i' h(2) p]
  obtain st' where st': "get_next_state corridor [(1, 1), (2, 1)] 1 = (Inr st', corridor)"
    and l: "length st' = length [(1, 1), (2, 1) :: point]"
    and a: "st' ! AGENT_IDX = translate ([(1, 1), (2, 1)] ! AGENT_IDX) (DISPLACEMENTS ! nat 1)"
    and m: "\<forall>i. 1 \<le> i \<and> i < num_movables corridor \<longrightarrow>
          st' ! i = (if [True, True] ! i then translate ([(1, 1), (2, 1)] ! i) (DISPLACEMENTS ! nat 1)
                     else [(1, 1), (2, 1)] ! i)"
    by auto
  from m have "st' ! 1 = translate ([(1, 1), (2, 1)] ! 1) (DISPLACEMENTS ! nat 1)"
    by (simp add: corridor_def)
  with a have "st' ! 0 = (2, 1)" "st' ! 1 = (3, 1)"
    by (simp_all add: translate_def DISPLACEMENTS_def AGENT_IDX_def)
  moreover from l obtain a b where "st' = [a, b]"
    by (auto simp: length_Suc_conv)
  ultimately have "st' = [(2, 1), (3, 1)]" by simp
  with st' h p i corridor_well_formed show ?thesis by simp
qed

text \<open>
  C6. For every object shape \<open>O\<close> (a non-empty set of cells), every static obstacle shape
  \<open>S\<close>, both of cells in range, and every direction with unit displacement \<open>\<Delta>\<close>, the set
  \<open>_populate_static_collisions\<close> fills from empty is exactly the set of the positions
  \<open>r = sc - oc - \<Delta>\<close>, over the pairs of a cell \<open>oc\<close> of \<open>O\<close> and a cell \<open>sc\<close> of \<open>S\<close>,
  that lie in the anchor range (\<open>0 \<le> r\<close> and \<open>r\<close> at most the grid's width and height
  less the extent of the object, in each coordinate) and at which \<open>O\<close>, translated by
  \<open>r\<close>, does not overlap \<open>S\<close>.
\<close>

theorem populate_static_collisions_exact:
  assumes "0 \<le> action" and "action < 4" and "object_pixels \<noteq> []"
    and "\<forall>c \<in> set object_pixels. in_range c"
    and "\<forall>c \<in> set static_obstacle_pixels. in_range c"
  shows "populate_static_collisions {} action object_pixels static_obstacle_pixels width height =
     Inr {r. (\<exists>oc \<in> set object_pixels. \<exists>sc \<in> set static_obstacle_pixels.
                r = offset (offset sc oc) (DISPLACEMENTS ! nat action))
            \<and> 0 \<le> fst r \<and> 0 \<le> snd r
            \<and> fst r \<le> width - (Max (fst ` set object_pixels) - Min (fst ` set object_pixels) + 1)
            \<and> snd r \<le> height - (Max (snd ` set object_pixels) - Min (snd ` set object_pixels) + 1)
            \<and> placed object_pixels r \<inter> set static_obstacle_pixels = {}}"
  using populate_static_collisions_eq [OF assms, of "{}"] by simp

theorem populate_static_collisions_exact_witness:
  "(0::int) \<le> 1 \<and> (1::int) < 4 \<and> [(0, 0), (1, 0) :: point] \<noteq> []
   \<and> in_range (0, 0) \<and> in_range (1, 0) \<and> in_range (4, 1) \<and> in_range (2, 5)
   \<and> populate_static_collisions {} 1 [(0, 0), (1, 0)] [(4, 1), (2, 5)] 6 3 = Inr {(2, 1)}
   \<and> {(2, 1)} =
      {r. (\<exists>oc \<in> set [(0, 0), (1, 0) :: point]. \<exists>sc \<in> set [(4, 1), (2, 5) :: point].
                r = offset (offset sc oc) (DISPLACEMENTS ! nat 1))
            \<and> 0 \<le> fst r \<and> 0 \<le> snd r
            \<and> fst r \<le> 6 - (Max (fst ` set [(0, 0), (1, 0) :: point]) - Min (fst ` set [(0, 0), (1, 0) :: point]) + 1)
            \<and> snd r \<le> 3 - (Max (snd ` set [(0, 0), (1, 0) :: point]) - Min (snd ` set [(0, 0), (1, 0) :: point]) + 1)
            \<and> placed [(0, 0), (1, 0)] r \<inter> set [(4, 1), (2, 5) :: point] = {}}"
proof -
  have h: "(0::int) \<le> 1" "(1::int) < 4" "[(0, 0), (1, 0) :: point] \<noteq> []"
    by simp_all
  have i: "in_range (0, 0)" "in_range (1, 0)" "in_range (4, 1)" "in_range (2, 5)"
    by (simp_all add: in_range_def)
  then have i': "\<forall>c \<in> set [(0, 0), (1, 0) :: point]. in_range c" "\<forall>c \<in> set [(4, 1), (2, 5) :: point]. in_range c"
    by simp_all
  have e: "populate_static_collisions {} 1 [(0, 0), (1, 0)] [(4, 1), (2, 5)] 6 3 = Inr {(2, 1)}"
    by code_simp
  note t = populate_static_collisions_exact [OF h i', of 6 3]
  have s: "{(2, 1) :: point} =
      {r. (\<exists>oc \<in> set [(0, 0), (1, 0) :: point]. \<exists>sc \<in> set [(4, 1), (2, 5) :: point].
                r = offset (offset sc oc) (DISPLACEMENTS ! nat 1))
            \<and> 0 \<le> fst r \<and> 0 \<le> snd r
            \<and> fst r \<le> 6 - (Max (fst ` set [(0, 0), (1, 0) :: point]) - Min (fst ` set [(0, 0), (1, 0) :: point]) + 1)
            \<and> snd r \<le> 3 - (Max (snd ` set [(0, 0), (1, 0) :: point]) - Min (snd ` set [(0, 0), (1, 0) :: point]) + 1)
            \<and> placed [(0, 0), (1, 0)] r \<inter> set [(4, 1), (2, 5) :: point] = {}}"
    by (rule t [unfolded e, THEN Inr_inject])
  from h i e s show ?thesis by (intro conjI)
qed

text \<open>
  C7. For every finite sequence of actions: \<open>is_valid_plan\<close> of the standard puzzle
  returns \<open>True\<close> iff replaying the whole plan from the initial state with
  \<open>get_next_state\<close> ends in a goal state and no state met before the end of the plan,
  the initial state included, is a goal state; \<open>is_valid_plan\<close> of the braindead puzzle
  returns \<open>True\<close> iff replaying some prefix of the plan, the empty and the whole one
  included, ends in a goal state.
\<close>

theorem is_valid_plan_iff:
  "(fst (is_valid_plan pz plan) = Inr True \<longleftrightarrow>
      (\<exists>s. fst (replay pz (initial_state pz) plan) = Inr s \<and> is_goal_state pz s)
      \<and> (\<forall>k < length plan. \<forall>s.
            fst (replay pz (initial_state pz) (take k plan)) = Inr s \<longrightarrow> \<not> is_goal_state pz s))
   \<and> (bd_is_valid_plan bp plan' = Inr True \<longleftrightarrow>
      (\<exists>k \<le> length plan'. \<exists>s. bd_replay bp (bd_initial_state bp) (take k plan') = Inr s
         \<and> bd_is_goal_state bp s = Inr True))"
  unfolding is_valid_plan_def bd_is_valid_plan_def
  using is_valid_plan_from_iff [of pz "initial_state pz" plan]
    bd_is_valid_plan_from_iff [of bp "bd_initial_state bp" plan']
  by (intro conjI)

theorem is_valid_plan_iff_witness:
  "fst (is_valid_plan corridor [1, 1]) = Inr True
   \<and> (\<exists>s. fst (replay corridor (initial_state corridor) [1, 1]) = Inr s \<and> is_goal_state corridor s)
   \<and> \<not> is_goal_state corridor (initial_state corridor)
   \<and> \<not> is_goal_state corridor [(2, 1), (3, 1)]
   \<and> fst (is_valid_plan corridor [1, 1, 1]) = Inr False
   \<and> bd_is_valid_plan meadow [1, 1] = Inr True
   \<and> (\<exists>k s. k \<le> length [1, 1 :: int]
         \<and> bd_replay meadow (bd_initial_state meadow) (take k [1, 1]) = Inr s
         \<and> bd_is_goal_state meadow s = Inr True)"
proof -
  have i: "initial_state corridor = [(1, 1), (2, 1)]" "goal_state corridor = [(4, 1)]"
    by (simp_all add: corridor_def)
  have a: "fst (is_valid_plan corridor [1, 1]) = Inr True"
    by (simp add: is_valid_plan_def is_goal_state_def i corridor_right)
  have b: "fst (is_valid_plan corridor [1, 1, 1]) = Inr False"
    by (simp add: is_valid_plan_def is_goal_state_def i corridor_right)
  have c: "bd_is_valid_plan meadow [1, 1] = Inr True"
    by (simp add: bd_is_valid_plan_def bd_is_goal_state_def bd_get_next_state_def meadow_def
          py_index_def np_add_def int64_def AGENT_IDX_def DISPLACEMENTS_def)
  note T = is_valid_plan_iff [of corridor "[1, 1]" meadow "[1, 1]"]
  from a T have e: "\<exists>s. fst (replay corridor (initial_state corridor) [1, 1]) = Inr s
      \<and> is_goal_state corridor s"
    and u: "\<forall>k < length [1, 1 :: int]. \<forall>s.
         fst (replay corridor (initial_state corridor) (take k [1, 1])) = Inr s
         \<longrightarrow> \<not> is_goal_state corridor s"
    by blast+
  from u [rule_format, of 0 "initial_state corridor"]
  have n0: "\<not> is_goal_state corridor (initial_state corridor)" by simp
  from u [rule_format, of 1 "[(2, 1), (3, 1)]"]
  have n1: "\<not> is_goal_state corridor [(2, 1), (3, 1)]" by (simp add: i corridor_right)
  from c T have d: "\<exists>k s. k \<le> length [1, 1 :: int]
         \<and> bd_replay meadow (bd_initial_state meadow) (take k [1, 1]) = Inr s
         \<and> bd_is_goal_state meadow s = Inr True"
    by blast
  from a e n0 n1 b c d show ?thesis by (intro conjI)
qed

text \<open>
  C8. For every state and every action in \<open>[0, 4)\<close>: if the agent's position
  \<open>state[0]\<close> is in \<open>agentBlocked[action]\<close>, then \<open>get_next_state\<close> returns the
  input state, and the puzzle object, scratch array included, is as it was before the call.
\<close>

theorem get_next_state_agent_blocked:
  assumes "0 \<le> action" and "action < 4"
    and "length (agent_collision_map pz) = NUM_ACTIONS"
    and "st \<noteq> []"
    and "st ! AGENT_IDX \<in> agent_collision_map pz ! nat action"
  shows "get_next_state pz st action = (Inr st, pz)"
  using assms by (simp add: get_next_state_def py_index_def NUM_ACTIONS_def AGENT_IDX_def)

theorem get_next_state_agent_blocked_witness:
  "(0::int) \<le> 0 \<and> (0::int) < 4
   \<and> length (agent_collision_map corridor) = NUM_ACTIONS
   \<and> [(1, 1), (2, 1)] \<noteq> ([] :: state)
   \<and> [(1, 1), (2, 1)] ! AGENT_IDX \<in> agent_collision_map corridor ! nat 0
   \<and> get_next_state corridor [(1, 1), (2, 1)] 0 = (Inr [(1, 1), (2, 1)], corridor)"
proof -
  have h: "length (agent_collision_map corridor) = NUM_ACTIONS"
    by (simp add: corridor_def NUM_ACTIONS_def)
  have m: "[(1, 1), (2, 1)] ! AGENT_IDX \<in> agent_collision_map corridor ! nat 0"
    by (simp add: corridor_def AGENT_IDX_def)
  show ?thesis
    using h m get_next_state_agent_blocked [of 0 corridor "[(1, 1), (2, 1)]"] by simp
qed

text \<open>
  C9. The \<open>while\<close> loop of \<open>get_next_state\<close> terminates for every state and every action:
  the list of the indices it pops has no index twice and at most \<open>num_movables\<close> entries
  (so at most \<open>num_movables\<close> pops happen), whatever the outcome of the loop; hence
  \<open>get_next_state\<close> always returns a value or raises.
\<close>

theorem propagate_pops_bounded:
  assumes "length (pushed_objects pz) = num_movables pz"
    and "0 < num_movables pz"
    and "pushed_objects pz ! AGENT_IDX"
  shows "distinct (snd (propagate pz st action walls [AGENT_IDX] (pushed_objects pz) []))
    \<and> length (snd (propagate pz st action walls [AGENT_IDX] (pushed_objects pz) []))
        \<le> num_movables pz
    \<and> (\<exists>result pz'. get_next_state pz st action = (result, pz'))"
proof -
  have "distinct ([] @ [AGENT_IDX])" by simp
  moreover have "set ([] @ [AGENT_IDX]) \<subseteq> marked (pushed_objects pz)"
    using assms by (simp add: marked_def AGENT_IDX_def)
  ultimately have "distinct (snd (propagate pz st action walls [AGENT_IDX] (pushed_objects pz) []))
    \<and> length (snd (propagate pz st action walls [AGENT_IDX] (pushed_objects pz) []))
        \<le> length ([] :: nat list) + length [AGENT_IDX] + unmarked (pushed_objects pz)"
    by (rule propagate_popped)
  moreover have "Suc (unmarked (pushed_objects pz)) \<le> num_movables pz"
    using unmarked_bound [of "pushed_objects pz"] assms by (simp add: AGENT_IDX_def)
  moreover have "\<exists>result pz'. get_next_state pz st action = (result, pz')"
    by (cases "get_next_state pz st action") blast
  ultimately show ?thesis by simp
qed

theorem propagate_pops_bounded_witness:
  "length (pushed_objects corridor) = num_movables corridor
   \<and> 0 < num_movables corridor
   \<and> pushed_objects corridor ! AGENT_IDX
   \<and> snd (propagate corridor [(1, 1), (2, 1)] 1 [{}, {(4, 1)}] [AGENT_IDX]
            (pushed_objects corridor) []) = [0, 1]
   \<and> length (snd (propagate corridor [(1, 1), (2, 1)] 1 [{}, {(4, 1)}] [AGENT_IDX]
            (pushed_objects corridor) [])) \<le> num_movables corridor"
proof -
  have h: "length (pushed_objects corridor) = num_movables corridor"
    "0 < num_movables corridor" "pushed_objects corridor ! AGENT_IDX"
    by (simp_all add: corridor_def AGENT_IDX_def)
  have "snd (propagate corridor [(1, 1), (2, 1)] 1 [{}, {(4, 1)}] [AGENT_IDX]
            (pushed_objects corridor) []) = [0, 1]"
    by (simp add: propagate.simps visit_def corridor_def py_index_def np_subtract_def int64_def
          AGENT_IDX_def upt_conv_Cons)
  with h propagate_pops_bounded [OF h, of "[(1, 1), (2, 1)]" 1 "[{}, {(4, 1)}]"]
  show ?thesis by simp
qed

end
